theory Spec2Isabelle
  imports Main "HOL-Library.Word"
begin

unbundle bit_operations_syntax

section \<open>Common machine model\<close>

text \<open>
  The labs run on a 32-bit target: pointers and \<open>size_t\<close> are 32-bit words, \<open>uint64_t\<close>
  is a 64-bit word, and all unsigned arithmetic wraps.  The null pointer is the word 0.
\<close>

type_synonym addr = "32 word"
type_synonym size_t = "32 word"
type_synonym uint32_t = "32 word"
type_synonym uint64_t = "64 word"

abbreviation (input) NULL :: addr where
  "NULL \<equiv> 0"

text \<open>
  Capability flags of \<open>esp_heap_caps.h\<close>, with the values of the ESP-IDF header; no proof
  depends on the values.
\<close>

definition MALLOC_CAP_SPIRAM :: uint32_t where
  "MALLOC_CAP_SPIRAM = push_bit 10 1"

definition MALLOC_CAP_INTERNAL :: uint32_t where
  "MALLOC_CAP_INTERNAL = push_bit 11 1"

definition MALLOC_CAP_DEFAULT :: uint32_t where
  "MALLOC_CAP_DEFAULT = push_bit 12 1"

text \<open>
  Calls into the general-purpose allocator are effects on the outside world; the model records
  them in call order.  What \<open>heap_caps_malloc\<close> returns is decided by the environment and is
  passed to the model as an argument.
\<close>

datatype heap_call =
    Malloc size_t uint32_t
  | Calloc size_t size_t uint32_t
  | Free addr

text \<open>
  Lines written with \<open>ESP_LOGx\<close>, by the statement that writes them; only the values
  formatted into the line are kept.
\<close>

datatype log_line =
    LogPoolAllocFailed string
  | LogPoolReady string size_t size_t
  | LogAlloc size_t addr "string option" int
  | LogSlotsFull
  | LogAllocFail size_t "string option"
  | LogFree size_t addr "string option" int
  | LogUntrackedFree addr "string option"
  | LogLeakScan
  | LogLeak nat size_t addr uint64_t string
  | LogFoundLeaks int size_t
  | LogNoLeaks

text \<open>
  Memory is an array of bytes indexed by address.  The target is little-endian: a 32-bit
  value occupies the four bytes from its address on, lowest byte first, and a 64-bit value
  the eight bytes from its address on, low word first.  Address arithmetic wraps at the top
  of the address space.
\<close>

type_synonym byte = "8 word"

definition load32 :: "(addr \<Rightarrow> byte) \<Rightarrow> addr \<Rightarrow> uint32_t" where
  "load32 ram a =
    ucast (ram a) OR push_bit 8 (ucast (ram (a + 1))) OR push_bit 16 (ucast (ram (a + 2)))
      OR push_bit 24 (ucast (ram (a + 3)))"

definition store32 :: "addr \<Rightarrow> uint32_t \<Rightarrow> (addr \<Rightarrow> byte) \<Rightarrow> addr \<Rightarrow> byte" where
  "store32 a v ram =
    ram(a := ucast v, a + 1 := ucast (drop_bit 8 v), a + 2 := ucast (drop_bit 16 v),
        a + 3 := ucast (drop_bit 24 v))"

definition load64 :: "(addr \<Rightarrow> byte) \<Rightarrow> addr \<Rightarrow> uint64_t" where
  "load64 ram a = ucast (load32 ram a) OR push_bit 32 (ucast (load32 ram (a + 4)))"

definition store64 :: "addr \<Rightarrow> uint64_t \<Rightarrow> (addr \<Rightarrow> byte) \<Rightarrow> addr \<Rightarrow> byte" where
  "store64 a v ram = store32 (a + 4) (ucast (drop_bit 32 v)) (store32 a (ucast v) ram)"

text \<open>
  The world outside the program's own structs: memory, the GPIO output levels, the calls made
  to the general-purpose allocator and the log.  The program's static data (the pool structs
  and the tracker's table) are kept as records beside this memory, not as bytes in it: a
  header access is taken not to fall on them.
\<close>

record machine =
  memory :: "addr \<Rightarrow> byte"
  gpio :: "nat \<Rightarrow> bool"
  heap_calls :: "heap_call list"
  log :: "log_line list"

section \<open>Lab 2: fixed-block memory pools (memory\_pools.c)\<close>

subsection \<open>Data\<close>

text \<open>
  \<open>memory_block_t\<close>, the header in front of every block, as the target lays it out:
  \<open>next\<close> at offset 0, \<open>magic\<close> at 4, \<open>pool_id\<close> at 8, four bytes of padding, and
  the 8-byte aligned \<open>alloc_time\<close> at 16; \<open>sizeof(memory_block_t)\<close> is 24.  The code
  reaches a header through a pointer cast, so a field is read and written in the bytes at
  the pointer's address plus the field's offset, whatever lies there: headers placed less
  than 24 bytes apart share bytes.
\<close>

definition sizeof_memory_block :: size_t where
  "sizeof_memory_block = 24"

definition block_next :: "(addr \<Rightarrow> byte) \<Rightarrow> addr \<Rightarrow> addr" where
  "block_next ram block = load32 ram block"

definition block_magic :: "(addr \<Rightarrow> byte) \<Rightarrow> addr \<Rightarrow> uint32_t" where
  "block_magic ram block = load32 ram (block + 4)"

definition block_pool_id :: "(addr \<Rightarrow> byte) \<Rightarrow> addr \<Rightarrow> uint32_t" where
  "block_pool_id ram block = load32 ram (block + 8)"

definition block_alloc_time :: "(addr \<Rightarrow> byte) \<Rightarrow> addr \<Rightarrow> uint64_t" where
  "block_alloc_time ram block = load64 ram (block + 16)"

definition set_next :: "addr \<Rightarrow> addr \<Rightarrow> (addr \<Rightarrow> byte) \<Rightarrow> addr \<Rightarrow> byte" where
  "set_next block v ram = store32 block v ram"

definition set_magic :: "addr \<Rightarrow> uint32_t \<Rightarrow> (addr \<Rightarrow> byte) \<Rightarrow> addr \<Rightarrow> byte" where
  "set_magic block v ram = store32 (block + 4) v ram"

definition set_pool_id :: "addr \<Rightarrow> uint32_t \<Rightarrow> (addr \<Rightarrow> byte) \<Rightarrow> addr \<Rightarrow> byte" where
  "set_pool_id block v ram = store32 (block + 8) v ram"

definition set_alloc_time :: "addr \<Rightarrow> uint64_t \<Rightarrow> (addr \<Rightarrow> byte) \<Rightarrow> addr \<Rightarrow> byte" where
  "set_alloc_time block v ram = store64 (block + 16) v ram"

text \<open>\<open>pool_config_t\<close>; \<open>led_pin\<close> is the GPIO number.\<close>

record pool_config =
  name :: string
  block_size :: size_t
  block_count :: size_t
  caps :: uint32_t
  led_pin :: nat

text \<open>
  \<open>memory_pool_t\<close>.  The mutex handle is modelled by whether it is non-null; the
  bitmap is only ever allocated, so its address is all that is kept.
\<close>

record memory_pool =
  name :: string
  block_size :: size_t
  block_count :: size_t
  alignment :: size_t
  caps :: uint32_t
  pool_memory :: addr
  free_list :: addr
  usage_bitmap :: addr
  allocated_blocks :: size_t
  peak_usage :: size_t
  total_allocations :: uint64_t
  total_deallocations :: uint64_t
  allocation_time_total :: uint64_t
  deallocation_time_total :: uint64_t
  allocation_failures :: uint32_t
  mutex :: bool
  pool_id :: uint32_t

definition LED_SMALL_POOL :: nat where "LED_SMALL_POOL = 2"
definition LED_MEDIUM_POOL :: nat where "LED_MEDIUM_POOL = 4"
definition LED_LARGE_POOL :: nat where "LED_LARGE_POOL = 5"
definition LED_POOL_FULL :: nat where "LED_POOL_FULL = 18"
definition LED_POOL_ERROR :: nat where "LED_POOL_ERROR = 19"

definition SMALL_POOL_BLOCK_SIZE :: size_t where "SMALL_POOL_BLOCK_SIZE = 64"
definition SMALL_POOL_BLOCK_COUNT :: size_t where "SMALL_POOL_BLOCK_COUNT = 32"
definition MEDIUM_POOL_BLOCK_SIZE :: size_t where "MEDIUM_POOL_BLOCK_SIZE = 256"
definition MEDIUM_POOL_BLOCK_COUNT :: size_t where "MEDIUM_POOL_BLOCK_COUNT = 16"
definition LARGE_POOL_BLOCK_SIZE :: size_t where "LARGE_POOL_BLOCK_SIZE = 1024"
definition LARGE_POOL_BLOCK_COUNT :: size_t where "LARGE_POOL_BLOCK_COUNT = 8"
definition HUGE_POOL_BLOCK_SIZE :: size_t where "HUGE_POOL_BLOCK_SIZE = 4096"
definition HUGE_POOL_BLOCK_COUNT :: size_t where "HUGE_POOL_BLOCK_COUNT = 4"

definition pool_configs :: "pool_config list" where
  "pool_configs =
    [\<lparr>pool_config.name = ''Small'', block_size = SMALL_POOL_BLOCK_SIZE,
      block_count = SMALL_POOL_BLOCK_COUNT, caps = MALLOC_CAP_INTERNAL, led_pin = LED_SMALL_POOL\<rparr>,
     \<lparr>pool_config.name = ''Medium'', block_size = MEDIUM_POOL_BLOCK_SIZE,
      block_count = MEDIUM_POOL_BLOCK_COUNT, caps = MALLOC_CAP_INTERNAL, led_pin = LED_MEDIUM_POOL\<rparr>,
     \<lparr>pool_config.name = ''Large'', block_size = LARGE_POOL_BLOCK_SIZE,
      block_count = LARGE_POOL_BLOCK_COUNT, caps = MALLOC_CAP_DEFAULT, led_pin = LED_LARGE_POOL\<rparr>,
     \<lparr>pool_config.name = ''Huge'', block_size = HUGE_POOL_BLOCK_SIZE,
      block_count = HUGE_POOL_BLOCK_COUNT, caps = MALLOC_CAP_SPIRAM, led_pin = LED_POOL_FULL\<rparr>]"

definition POOL_MAGIC_FREE :: uint32_t where
  "POOL_MAGIC_FREE = 0xDEADBEEF"

definition POOL_MAGIC_ALLOC :: uint32_t where
  "POOL_MAGIC_ALLOC = 0xCAFEBABE"

subsection \<open>init\_memory\_pool\<close>

text \<open>The pool struct after \<open>memset(pool, 0, sizeof(memory_pool_t))\<close>.\<close>

definition zeroed_pool :: memory_pool where
  "zeroed_pool =
    \<lparr>memory_pool.name = [], block_size = 0, block_count = 0, alignment = 0, caps = 0,
     pool_memory = NULL, free_list = NULL, usage_bitmap = NULL, allocated_blocks = 0,
     peak_usage = 0, total_allocations = 0, total_deallocations = 0,
     allocation_time_total = 0, deallocation_time_total = 0, allocation_failures = 0,
     mutex = False, pool_id = 0\<rparr>"

text \<open>
  One iteration of the threading loop: block \<open>i\<close> is tagged free, stamped with the pool
  id and pushed on the list built so far, the three fields written in the order of the
  source.  The product \<open>i * total_block_size\<close> is computed in \<open>size_t\<close> and wraps.
\<close>

definition init_block ::
  "addr \<Rightarrow> size_t \<Rightarrow> uint32_t \<Rightarrow> nat \<Rightarrow> addr \<times> (addr \<Rightarrow> byte) \<Rightarrow> addr \<times> (addr \<Rightarrow> byte)"
where
  "init_block memory_ptr total_block_size pid i st =
    (case st of (fl, ram) \<Rightarrow>
      let block = memory_ptr + of_nat i * total_block_size;
          ram1 = set_magic block POOL_MAGIC_FREE ram;
          ram2 = set_pool_id block pid ram1;
          ram3 = set_next block fl ram2
      in (block, ram3))"

text \<open>
  \<open>init_memory_pool\<close>.  The environment supplies the results of the two allocations
  (\<open>mem\<close>, \<open>bitmap\<close>) and whether \<open>xSemaphoreCreateMutex\<close> returned a handle.  The pool
  and the config are records, so the null checks on the two arguments have no counterpart.
  The result carries the pool struct as the call leaves it, also when it fails.  The loop
  counter is an \<open>int\<close> compared with the unsigned \<open>block_count\<close>; the model runs it over
  \<open>0 ..< block_count\<close>, which is what the code does for every count below \<open>2 ^ 31\<close>.
\<close>

definition init_memory_pool ::
  "addr \<Rightarrow> addr \<Rightarrow> bool \<Rightarrow> pool_config \<Rightarrow> uint32_t \<Rightarrow> machine \<Rightarrow> bool \<times> memory_pool \<times> machine"
where
  "init_memory_pool mem bitmap mutex_created config pid m =
    (let pool0 = zeroed_pool
           \<lparr>memory_pool.name := pool_config.name config,
            memory_pool.block_size := pool_config.block_size config,
            memory_pool.block_count := pool_config.block_count config,
            alignment := 4,
            memory_pool.caps := pool_config.caps config,
            memory_pool.pool_id := pid\<rparr>;
         header_size = sizeof_memory_block;
         aligned_block_size =
           (pool_config.block_size config + alignment pool0 - 1) AND NOT (alignment pool0 - 1);
         total_block_size = header_size + aligned_block_size;
         total_memory = total_block_size * pool_config.block_count config;
         m1 = m\<lparr>heap_calls := heap_calls m @ [Malloc total_memory (pool_config.caps config)]\<rparr>;
         pool1 = pool0\<lparr>pool_memory := mem\<rparr>
     in if mem = NULL
        then (False, pool1, m1\<lparr>log := log m1 @ [LogPoolAllocFailed (pool_config.name config)]\<rparr>)
        else
          let bitmap_bytes = (pool_config.block_count config + 7) div 8;
              m2 = m1\<lparr>heap_calls := heap_calls m1 @ [Calloc bitmap_bytes 1 MALLOC_CAP_INTERNAL]\<rparr>;
              pool2 = pool1\<lparr>usage_bitmap := bitmap\<rparr>
          in if bitmap = NULL
             then (False, pool2, m2\<lparr>heap_calls := heap_calls m2 @ [Free mem]\<rparr>)
             else
               (case fold (init_block mem total_block_size pid)
                       [0 ..< unat (pool_config.block_count config)] (NULL, memory m2)
                of (fl, ram) \<Rightarrow>
                  (True, pool2\<lparr>free_list := fl, mutex := mutex_created\<rparr>,
                   m2\<lparr>memory := ram,
                      log := log m2 @ [LogPoolReady (pool_config.name config)
                               (pool_config.block_count config) (pool_config.block_size config)]\<rparr>)))"

subsection \<open>pool\_malloc and pool\_free\<close>

text \<open>
  \<open>taken\<close> is whether \<open>xSemaphoreTake\<close> obtained the mutex within its timeout and
  \<open>now\<close> is the value of \<open>esp_timer_get_time()\<close>; both come from the environment.  The
  pool is a record, so of the null checks only those on the mutex handle and on the pointer
  remain.  The header of a block is read and written at \<open>ptr - sizeof(memory_block_t)\<close>,
  whatever lies there.  Reads and writes of header fields come in the order of the source:
  \<open>pool_malloc\<close> reads \<open>next\<close> before it writes \<open>magic\<close> and \<open>alloc_time\<close>, and
  \<open>pool_free\<close> checks \<open>magic\<close> and \<open>pool_id\<close> before it writes \<open>magic\<close> and
  \<open>next\<close>.  A field access through a pointer that is not aligned is modelled like any
  other: it uses the bytes at the address.
\<close>

definition pool_malloc :: "bool \<Rightarrow> uint64_t \<Rightarrow> memory_pool \<Rightarrow> machine \<Rightarrow> addr \<times> memory_pool \<times> machine" where
  "pool_malloc taken now pool m =
    (if \<not> mutex pool then (NULL, pool, m)
     else if taken then
       (if free_list pool \<noteq> NULL then
          let block = free_list pool;
              pool1 = pool\<lparr>free_list := block_next (memory m) block\<rparr>;
              ram1 = set_magic block POOL_MAGIC_ALLOC (memory m);
              ram2 = set_alloc_time block now ram1
          in (block + sizeof_memory_block,
              pool1\<lparr>allocated_blocks := allocated_blocks pool1 + 1,
                    total_allocations := total_allocations pool1 + 1\<rparr>,
              m\<lparr>memory := ram2\<rparr>)
        else
          (NULL,
           pool\<lparr>allocation_failures := allocation_failures pool + 1\<rparr>,
           m\<lparr>gpio := (gpio m)(LED_POOL_FULL := True)\<rparr>))
     else (NULL, pool, m))"

definition pool_free :: "bool \<Rightarrow> memory_pool \<Rightarrow> addr \<Rightarrow> machine \<Rightarrow> bool \<times> memory_pool \<times> machine" where
  "pool_free taken pool ptr m =
    (if ptr = NULL \<or> \<not> mutex pool then (False, pool, m)
     else
       let block = ptr - sizeof_memory_block
       in if taken then
            (if block_magic (memory m) block = POOL_MAGIC_ALLOC
                \<and> block_pool_id (memory m) block = pool_id pool
             then
               let ram1 = set_magic block POOL_MAGIC_FREE (memory m);
                   ram2 = set_next block (free_list pool) ram1
               in (True,
                   pool\<lparr>free_list := block,
                        allocated_blocks := allocated_blocks pool - 1,
                        total_deallocations := total_deallocations pool + 1\<rparr>,
                   m\<lparr>memory := ram2\<rparr>)
             else (True, pool, m\<lparr>gpio := (gpio m)(LED_POOL_ERROR := True)\<rparr>))
          else (True, pool, m))"

text \<open>
  A caller's sequence of operations on one pool; every operation carries what the
  environment answers during that call.
\<close>

datatype pool_op =
    Allocate bool uint64_t
  | Release bool addr

fun pool_step :: "pool_op \<Rightarrow> memory_pool \<times> machine \<Rightarrow> memory_pool \<times> machine" where
  "pool_step (Allocate taken now) (pool, m) = snd (pool_malloc taken now pool m)"
| "pool_step (Release taken ptr) (pool, m) = snd (pool_free taken pool ptr m)"

definition run_ops :: "pool_op list \<Rightarrow> memory_pool \<times> machine \<Rightarrow> memory_pool \<times> machine" where
  "run_ops ops st = fold pool_step ops st"

text \<open>
  A run of allocations with nothing in between; the pointers returned are collected in call
  order.
\<close>

fun pool_mallocs ::
  "(bool \<times> uint64_t) list \<Rightarrow> memory_pool \<times> machine \<Rightarrow> addr list \<times> memory_pool \<times> machine"
where
  "pool_mallocs [] (pool, m) = ([], pool, m)"
| "pool_mallocs ((taken, now) # envs) (pool, m) =
    (case pool_malloc taken now pool m of (p, pool', m') \<Rightarrow>
       case pool_mallocs envs (pool', m') of (ps, pool'', m'') \<Rightarrow> (p # ps, pool'', m''))"

subsection \<open>The size-class dispatcher\<close>

text \<open>
  The static array \<open>pools[POOL_COUNT]\<close> is a list and \<open>pool_configs\<close> a parameter, so
  that registries other than the lab's four classes can be run too.  \<open>lock i\<close> is whether
  the mutex of pool \<open>i\<close> is obtained.  The loop is a recursion over the indices still to
  visit; \<open>None\<close> stands for leaving the loop without a \<open>return\<close>.  The LED of the
  serving class is switched on and, after the delay, off again.
\<close>

fun smart_pool_malloc_loop ::
  "(nat \<Rightarrow> bool) \<Rightarrow> uint64_t \<Rightarrow> pool_config list \<Rightarrow> size_t \<Rightarrow> nat list \<Rightarrow>
   memory_pool list \<Rightarrow> machine \<Rightarrow> addr option \<times> memory_pool list \<times> machine"
where
  "smart_pool_malloc_loop lock now cfgs required [] pools m = (None, pools, m)"
| "smart_pool_malloc_loop lock now cfgs required (i # rest) pools m =
    (if required \<le> memory_pool.block_size (pools ! i) then
       (case pool_malloc (lock i) now (pools ! i) m of (ptr, pool', m') \<Rightarrow>
          if ptr \<noteq> NULL
          then (Some ptr, pools[i := pool'],
                m'\<lparr>gpio := (gpio m')(led_pin (cfgs ! i) := False)\<rparr>)
          else smart_pool_malloc_loop lock now cfgs required rest (pools[i := pool']) m')
     else smart_pool_malloc_loop lock now cfgs required rest pools m)"

text \<open>\<open>raw\<close> is what \<open>heap_caps_malloc(size, MALLOC_CAP_DEFAULT)\<close> returns if it is called.\<close>

definition smart_pool_malloc ::
  "(nat \<Rightarrow> bool) \<Rightarrow> uint64_t \<Rightarrow> addr \<Rightarrow> pool_config list \<Rightarrow> size_t \<Rightarrow>
   memory_pool list \<Rightarrow> machine \<Rightarrow> addr \<times> memory_pool list \<times> machine"
where
  "smart_pool_malloc lock now raw cfgs sz pools m =
    (let required = sz + 16
     in case smart_pool_malloc_loop lock now cfgs required [0 ..< length pools] pools m of
          (Some ptr, pools', m') \<Rightarrow> (ptr, pools', m')
        | (None, pools', m') \<Rightarrow>
            (raw, pools', m'\<lparr>heap_calls := heap_calls m' @ [Malloc sz MALLOC_CAP_DEFAULT]\<rparr>))"

fun smart_pool_free_loop ::
  "(nat \<Rightarrow> bool) \<Rightarrow> addr \<Rightarrow> nat list \<Rightarrow> memory_pool list \<Rightarrow> machine \<Rightarrow>
   bool \<times> memory_pool list \<times> machine"
where
  "smart_pool_free_loop lock ptr [] pools m = (False, pools, m)"
| "smart_pool_free_loop lock ptr (i # rest) pools m =
    (case pool_free (lock i) (pools ! i) ptr m of (ok, pool', m') \<Rightarrow>
       if ok then (True, pools[i := pool'], m')
       else smart_pool_free_loop lock ptr rest (pools[i := pool']) m')"

text \<open>The first component of the loop's result is whether it returned from inside.\<close>

definition smart_pool_free ::
  "(nat \<Rightarrow> bool) \<Rightarrow> addr \<Rightarrow> memory_pool list \<Rightarrow> machine \<Rightarrow> bool \<times> memory_pool list \<times> machine"
where
  "smart_pool_free lock ptr pools m =
    (case smart_pool_free_loop lock ptr [0 ..< length pools] pools m of
       (returned, pools', m') \<Rightarrow>
         if returned then (True, pools', m')
         else (True, pools', m'\<lparr>heap_calls := heap_calls m' @ [Free ptr]\<rparr>))"

text \<open>
  The initialisation loop of \<open>app_main\<close>: pool \<open>i\<close> gets id \<open>i + 1\<close>, and the first
  failure ends the start-up.  \<open>mem i\<close>, \<open>bitmap i\<close> and \<open>mtx i\<close> are the environment's
  answers during the initialisation of pool \<open>i\<close>.
\<close>

fun init_pools_loop ::
  "(nat \<Rightarrow> addr) \<Rightarrow> (nat \<Rightarrow> addr) \<Rightarrow> (nat \<Rightarrow> bool) \<Rightarrow> pool_config list \<Rightarrow> nat list \<Rightarrow>
   memory_pool list \<Rightarrow> machine \<Rightarrow> bool \<times> memory_pool list \<times> machine"
where
  "init_pools_loop mem bitmap mtx cfgs [] pools m = (True, pools, m)"
| "init_pools_loop mem bitmap mtx cfgs (i # rest) pools m =
    (case init_memory_pool (mem i) (bitmap i) (mtx i) (cfgs ! i) (of_nat i + 1) m of
       (ok, pool', m') \<Rightarrow>
         if \<not> ok then (False, pools[i := pool'], m')
         else init_pools_loop mem bitmap mtx cfgs rest (pools[i := pool']) m')"

definition init_pools ::
  "(nat \<Rightarrow> addr) \<Rightarrow> (nat \<Rightarrow> addr) \<Rightarrow> (nat \<Rightarrow> bool) \<Rightarrow> pool_config list \<Rightarrow> machine \<Rightarrow>
   bool \<times> memory_pool list \<times> machine"
where
  "init_pools mem bitmap mtx cfgs m =
    init_pools_loop mem bitmap mtx cfgs [0 ..< length cfgs] (replicate (length cfgs) zeroed_pool) m"

section \<open>Lab 1: tracked heap allocations (heap\_management.c)\<close>

subsection \<open>Data\<close>

definition LED_MEMORY_ERROR :: nat where "LED_MEMORY_ERROR = 5"

definition MAX_ALLOCATIONS :: nat where "MAX_ALLOCATIONS = 100"

text \<open>
  \<open>memory_allocation_t\<close>; the field \<open>size\<close> is \<open>size'\<close> here, and a null
  \<open>description\<close> is \<open>None\<close>.
\<close>

record memory_allocation =
  ptr :: addr
  size' :: size_t
  caps :: uint32_t
  description :: "string option"
  timestamp :: uint64_t
  is_active :: bool

record memory_stats =
  total_allocations :: uint32_t
  total_deallocations :: uint32_t
  current_allocations :: uint32_t
  total_bytes_allocated :: uint64_t
  total_bytes_deallocated :: uint64_t
  peak_usage :: uint64_t
  allocation_failures :: uint32_t
  fragmentation_events :: uint32_t
  low_memory_events :: uint32_t

text \<open>
  The file's globals.  The table \<open>allocations[MAX_ALLOCATIONS]\<close> is the list of its slots
  in index order; the mutex handle is modelled by whether it is non-null.
\<close>

record tracker =
  allocations :: "memory_allocation list"
  stats :: memory_stats
  memory_mutex :: bool
  memory_monitoring_enabled :: bool

definition zeroed_allocation :: memory_allocation where
  "zeroed_allocation =
    \<lparr>ptr = NULL, size' = 0, caps = 0, description = None, timestamp = 0, is_active = False\<rparr>"

definition zeroed_stats :: memory_stats where
  "zeroed_stats =
    \<lparr>memory_stats.total_allocations = 0, total_deallocations = 0, current_allocations = 0,
     total_bytes_allocated = 0, total_bytes_deallocated = 0, peak_usage = 0,
     allocation_failures = 0, fragmentation_events = 0, low_memory_events = 0\<rparr>"

text \<open>The globals once \<open>app_main\<close> has created the mutex and cleared the table.\<close>

definition initial_tracker :: tracker where
  "initial_tracker =
    \<lparr>allocations = replicate MAX_ALLOCATIONS zeroed_allocation, stats = zeroed_stats,
     memory_mutex = True, memory_monitoring_enabled = True\<rparr>"

subsection \<open>Slot search\<close>

text \<open>Both searches walk the table from slot 0 and return the first hit, or \<open>-1\<close>.\<close>

fun find_free_allocation_slot_from :: "memory_allocation list \<Rightarrow> nat \<Rightarrow> int" where
  "find_free_allocation_slot_from [] i = - 1"
| "find_free_allocation_slot_from (a # as) i =
    (if \<not> is_active a then int i else find_free_allocation_slot_from as (Suc i))"

definition find_free_allocation_slot :: "memory_allocation list \<Rightarrow> int" where
  "find_free_allocation_slot allocs = find_free_allocation_slot_from allocs 0"

fun find_allocation_by_ptr_from :: "memory_allocation list \<Rightarrow> addr \<Rightarrow> nat \<Rightarrow> int" where
  "find_allocation_by_ptr_from [] p i = - 1"
| "find_allocation_by_ptr_from (a # as) p i =
    (if is_active a \<and> ptr a = p then int i else find_allocation_by_ptr_from as p (Suc i))"

definition find_allocation_by_ptr :: "memory_allocation list \<Rightarrow> addr \<Rightarrow> int" where
  "find_allocation_by_ptr allocs p = find_allocation_by_ptr_from allocs p 0"

subsection \<open>tracked\_malloc and tracked\_free\<close>

text \<open>
  \<open>p\<close> is what \<open>heap_caps_malloc(size, caps)\<close> returns, \<open>taken\<close> whether the mutex is
  obtained and \<open>now\<close> the timer value.  \<open>current_usage\<close> is a \<open>size_t\<close>, so the 64-bit
  difference is cut to 32 bits before it is compared with the 64-bit peak.
\<close>

definition tracked_malloc ::
  "bool \<Rightarrow> uint64_t \<Rightarrow> addr \<Rightarrow> size_t \<Rightarrow> uint32_t \<Rightarrow> string option \<Rightarrow> tracker \<Rightarrow> machine \<Rightarrow>
   addr \<times> tracker \<times> machine"
where
  "tracked_malloc taken now p sz cp desc t m =
    (let m0 = m\<lparr>heap_calls := heap_calls m @ [Malloc sz cp]\<rparr>
     in if memory_monitoring_enabled t \<and> memory_mutex t then
          (if taken then
             (if p \<noteq> NULL then
                let slot = find_free_allocation_slot (allocations t)
                in if slot \<ge> 0 then
                     let entry = (allocations t ! nat slot)
                           \<lparr>ptr := p, size' := sz, memory_allocation.caps := cp, description := desc,
                            timestamp := now, is_active := True\<rparr>;
                         st1 = (stats t)
                           \<lparr>memory_stats.total_allocations := memory_stats.total_allocations (stats t) + 1,
                            current_allocations := current_allocations (stats t) + 1,
                            total_bytes_allocated := total_bytes_allocated (stats t) + ucast sz\<rparr>;
                         current_usage = (ucast (total_bytes_allocated st1 - total_bytes_deallocated st1) :: size_t);
                         st2 = (if ucast current_usage > memory_stats.peak_usage st1
                                then st1\<lparr>memory_stats.peak_usage := ucast current_usage\<rparr> else st1)
                     in (p, t\<lparr>allocations := (allocations t)[nat slot := entry], stats := st2\<rparr>,
                         m0\<lparr>log := log m0 @ [LogAlloc sz p desc slot]\<rparr>)
                   else (p, t, m0\<lparr>log := log m0 @ [LogSlotsFull]\<rparr>)
              else
                (p, t\<lparr>stats := (stats t)\<lparr>memory_stats.allocation_failures :=
                                           memory_stats.allocation_failures (stats t) + 1\<rparr>\<rparr>,
                 m0\<lparr>log := log m0 @ [LogAllocFail sz desc]\<rparr>))
           else (p, t, m0))
        else (p, t, m0))"

definition tracked_free :: "bool \<Rightarrow> addr \<Rightarrow> string option \<Rightarrow> tracker \<Rightarrow> machine \<Rightarrow> tracker \<times> machine" where
  "tracked_free taken p desc t m =
    (if p = NULL then (t, m)
     else
       (case
          (if memory_monitoring_enabled t \<and> memory_mutex t then
             (if taken then
                let slot = find_allocation_by_ptr (allocations t) p
                in if slot \<ge> 0 then
                     let entry = allocations t ! nat slot
                     in (t\<lparr>allocations := (allocations t)[nat slot := entry\<lparr>is_active := False\<rparr>],
                           stats := (stats t)
                             \<lparr>memory_stats.total_deallocations := memory_stats.total_deallocations (stats t) + 1,
                              current_allocations := current_allocations (stats t) - 1,
                              total_bytes_deallocated := total_bytes_deallocated (stats t) + ucast (size' entry)\<rparr>\<rparr>,
                         m\<lparr>log := log m @ [LogFree (size' entry) p desc slot]\<rparr>)
                   else (t, m\<lparr>log := log m @ [LogUntrackedFree p desc]\<rparr>)
              else (t, m))
           else (t, m))
        of (t', m') \<Rightarrow> (t', m'\<lparr>heap_calls := heap_calls m' @ [Free p]\<rparr>)))"

subsection \<open>detect\_memory\_leaks\<close>

text \<open>
  The scan loop with its three accumulators: the lines logged, \<open>leaks\<close> and
  \<open>leaked_bytes\<close>.  Timestamps are microseconds; the age is the whole number of
  milliseconds in \<open>now - timestamp\<close>.
\<close>

fun leak_scan ::
  "uint64_t \<Rightarrow> memory_allocation list \<Rightarrow> nat \<Rightarrow> log_line list \<times> int \<times> size_t \<Rightarrow>
   log_line list \<times> int \<times> size_t"
where
  "leak_scan now [] i acc = acc"
| "leak_scan now (a # as) i (lines, leaks, leaked_bytes) =
    (if is_active a then
       let age_ms = (now - timestamp a) div 1000
       in if age_ms > 30000
          then leak_scan now as (Suc i)
                 (lines @ [LogLeak i (size' a) (ptr a) age_ms
                             (case description a of Some d \<Rightarrow> d | None \<Rightarrow> ''-'')],
                  leaks + 1, leaked_bytes + size' a)
          else leak_scan now as (Suc i) (lines, leaks, leaked_bytes)
     else leak_scan now as (Suc i) (lines, leaks, leaked_bytes))"

text \<open>
  \<open>detect_memory_leaks\<close>; \<open>taken\<close> is whether the mutex is obtained within the second
  the scan waits for it.  The globals are returned as the call leaves them.
\<close>

definition detect_memory_leaks :: "bool \<Rightarrow> uint64_t \<Rightarrow> tracker \<Rightarrow> machine \<Rightarrow> tracker \<times> machine" where
  "detect_memory_leaks taken now t m =
    (if \<not> memory_mutex t then (t, m)
     else if \<not> taken then (t, m)
     else
       (case leak_scan now (allocations t) 0 ([], 0, 0) of (lines, leaks, leaked_bytes) \<Rightarrow>
          let m1 = m\<lparr>log := log m @ [LogLeakScan] @ lines\<rparr>
          in if leaks > 0
             then (t, m1\<lparr>log := log m1 @ [LogFoundLeaks leaks leaked_bytes],
                         gpio := (gpio m1)(LED_MEMORY_ERROR := True)\<rparr>)
             else (t, m1\<lparr>log := log m1 @ [LogNoLeaks]\<rparr>)))"

text \<open>The slots named by the leak lines of a log: what a scan reports.\<close>

fun reported_slots :: "log_line list \<Rightarrow> nat list" where
  "reported_slots [] = []"
| "reported_slots (LogLeak i sz p age d # ls) = i # reported_slots ls"
| "reported_slots (l # ls) = reported_slots ls"

section \<open>Notions used in the statements\<close>

subsection \<open>Free lists in memory\<close>

text \<open>
  \<open>chain ram p bs\<close>: following the \<open>next\<close> links from \<open>p\<close> visits exactly the blocks
  \<open>bs\<close>, none of them null, and ends at the null pointer.
\<close>

fun chain :: "(addr \<Rightarrow> byte) \<Rightarrow> addr \<Rightarrow> addr list \<Rightarrow> bool" where
  "chain ram p [] = (p = NULL)"
| "chain ram p (b # bs) = (p = b \<and> b \<noteq> NULL \<and> chain ram (block_next ram b) bs)"

text \<open>
  \<open>span a n\<close> is the set of the \<open>n\<close> byte addresses from \<open>a\<close> on.  Two headers are
  \<open>apart\<close> when both lie inside the address space and share no byte.
\<close>

definition span :: "addr \<Rightarrow> nat \<Rightarrow> addr set" where
  "span a n = (\<lambda>k. a + of_nat k) ` {..<n}"

definition apart :: "addr \<Rightarrow> addr \<Rightarrow> bool" where
  "apart a b \<longleftrightarrow>
     unat a + unat sizeof_memory_block \<le> 2 ^ 32 \<and> unat b + unat sizeof_memory_block \<le> 2 ^ 32 \<and>
     (unat a + unat sizeof_memory_block \<le> unat b \<or> unat b + unat sizeof_memory_block \<le> unat a)"

text \<open>
  The distance between two blocks of a pool, \<open>total_block_size\<close> in \<open>init_memory_pool\<close>,
  the address of block \<open>i\<close>, and what a successful \<open>heap_caps_malloc(total_memory)\<close>
  provides when \<open>total_memory\<close> has not wrapped: a buffer that starts above the null
  pointer and ends inside the address space.
\<close>

definition pool_stride :: "pool_config \<Rightarrow> size_t" where
  "pool_stride config =
    sizeof_memory_block + ((pool_config.block_size config + 4 - 1) AND NOT (4 - 1))"

definition block_at :: "addr \<Rightarrow> pool_config \<Rightarrow> nat \<Rightarrow> addr" where
  "block_at mem config i = mem + of_nat i * pool_stride config"

definition buffer_fits :: "addr \<Rightarrow> pool_config \<Rightarrow> bool" where
  "buffer_fits mem config \<longleftrightarrow>
     mem \<noteq> NULL \<and> pool_stride config \<noteq> 0 \<and>
     unat mem + unat (pool_config.block_count config) * unat (pool_stride config) \<le> 2 ^ 32"

text \<open>
  The sum \<open>header_size + aligned_block_size\<close> wraps for block sizes from \<open>2 ^ 32 - 27\<close>
  to \<open>2 ^ 32 - 4\<close>, and the blocks then lie closer together than a header is long.
  \<open>headers_inside\<close>: every block's header ends inside the address space, so that no
  header write wraps around to the low addresses.  \<open>stride_holds_header\<close>: the sum has not
  wrapped, so that the headers of different blocks share no byte.  \<open>pool_blocks\<close> is the
  set of the pool's block addresses.
\<close>

definition headers_inside :: "addr \<Rightarrow> pool_config \<Rightarrow> bool" where
  "headers_inside mem config \<longleftrightarrow>
     (\<forall>i < unat (pool_config.block_count config).
        unat (block_at mem config i) + unat sizeof_memory_block \<le> 2 ^ 32)"

definition stride_holds_header :: "pool_config \<Rightarrow> bool" where
  "stride_holds_header config \<longleftrightarrow> sizeof_memory_block \<le> pool_stride config"

definition pool_blocks :: "addr \<Rightarrow> pool_config \<Rightarrow> addr set" where
  "pool_blocks mem config = block_at mem config ` {..< unat (pool_config.block_count config)}"

text \<open>
  The state of a pool whose blocks are the addresses \<open>B\<close> and whose free list holds the
  blocks \<open>fl\<close>: the headers of different blocks are apart, free blocks are chained and
  distinct, every block carries the pool's id, a block is tagged allocated exactly when it is
  not on the list, and the counters count the blocks that are not on the list.
\<close>

definition free_list_inv :: "addr set \<Rightarrow> addr list \<Rightarrow> memory_pool \<Rightarrow> machine \<Rightarrow> bool" where
  "free_list_inv B fl pool m \<longleftrightarrow>
     finite B \<and> NULL \<notin> B \<and> card B = unat (memory_pool.block_count pool) \<and>
     (\<forall>a\<in>B. \<forall>b\<in>B. a \<noteq> b \<longrightarrow> apart a b) \<and>
     chain (memory m) (free_list pool) fl \<and> distinct fl \<and> set fl \<subseteq> B \<and>
     (\<forall>b\<in>B. block_pool_id (memory m) b = memory_pool.pool_id pool \<and>
             (block_magic (memory m) b = POOL_MAGIC_ALLOC \<longleftrightarrow> b \<notin> set fl)) \<and>
     unat (allocated_blocks pool) + length fl = card B \<and>
     memory_pool.total_allocations pool =
       memory_pool.total_deallocations pool + ucast (allocated_blocks pool)"

text \<open>
  \<open>pool_free_accepts\<close>: the call passes the null checks, obtains the mutex and finds the
  allocated tag and the pool's id in the header it recovers from the pointer; this is the
  branch of \<open>pool_free\<close> that pushes the block and counts the release.
  \<open>releases_in_pool B ops st\<close>: in the run of \<open>ops\<close> from \<open>st\<close>, every release that
  \<open>pool_free\<close> accepts is given the payload pointer of a block of \<open>B\<close>.
\<close>

definition pool_free_accepts :: "bool \<Rightarrow> memory_pool \<Rightarrow> addr \<Rightarrow> machine \<Rightarrow> bool" where
  "pool_free_accepts taken pool p m \<longleftrightarrow>
     p \<noteq> NULL \<and> mutex pool \<and> taken \<and>
     block_magic (memory m) (p - sizeof_memory_block) = POOL_MAGIC_ALLOC \<and>
     block_pool_id (memory m) (p - sizeof_memory_block) = memory_pool.pool_id pool"

fun releases_in_pool :: "addr set \<Rightarrow> pool_op list \<Rightarrow> memory_pool \<times> machine \<Rightarrow> bool" where
  "releases_in_pool B [] st = True"
| "releases_in_pool B (Allocate taken now # ops) st =
    releases_in_pool B ops (pool_step (Allocate taken now) st)"
| "releases_in_pool B (Release taken p # ops) st =
    ((pool_free_accepts taken (fst st) p (snd st) \<longrightarrow> p - sizeof_memory_block \<in> B) \<and>
     releases_in_pool B ops (pool_step (Release taken p) st))"

subsection \<open>What a leak scan reports\<close>

text \<open>The slots named by the leak lines that one call of \<open>detect_memory_leaks\<close> adds to the log.\<close>

definition leaks_reported :: "bool \<Rightarrow> uint64_t \<Rightarrow> tracker \<Rightarrow> machine \<Rightarrow> nat list" where
  "leaks_reported taken now t m =
    reported_slots (drop (length (log m)) (log (snd (detect_memory_leaks taken now t m))))"

subsection \<open>Which class serves a request\<close>

text \<open>
  A pool can hand out a block when it has a mutex, the call obtains it, and the free list is
  not empty.  \<open>serving_class\<close> is the first class in scan order whose block size is at
  least the request plus the 16 bytes the dispatcher adds and that can hand out a block.
\<close>

definition pool_can_serve :: "bool \<Rightarrow> memory_pool \<Rightarrow> bool" where
  "pool_can_serve taken pool \<longleftrightarrow> mutex pool \<and> taken \<and> free_list pool \<noteq> NULL"

definition serving_class :: "(nat \<Rightarrow> bool) \<Rightarrow> size_t \<Rightarrow> memory_pool list \<Rightarrow> nat option" where
  "serving_class lock sz pools =
    find (\<lambda>i. unat sz + 16 \<le> unat (memory_pool.block_size (pools ! i))
               \<and> pool_can_serve (lock i) (pools ! i)) [0 ..< length pools]"

subsection \<open>Example states\<close>

text \<open>A machine just after reset: memory all zero, every output low, nothing called or logged.\<close>

definition boot_machine :: machine where
  "boot_machine =
    \<lparr>memory = (\<lambda>_. 0), gpio = (\<lambda>_. False), heap_calls = [], log = []\<rparr>"

text \<open>Size classes 64, 256 and 1024 with few blocks each, for runs that exhaust a class.\<close>

definition three_classes :: "pool_config list" where
  "three_classes =
    [\<lparr>pool_config.name = ''Small'', block_size = 64, block_count = 2,
      caps = MALLOC_CAP_INTERNAL, led_pin = LED_SMALL_POOL\<rparr>,
     \<lparr>pool_config.name = ''Medium'', block_size = 256, block_count = 1,
      caps = MALLOC_CAP_INTERNAL, led_pin = LED_MEDIUM_POOL\<rparr>,
     \<lparr>pool_config.name = ''Large'', block_size = 1024, block_count = 1,
      caps = MALLOC_CAP_DEFAULT, led_pin = LED_LARGE_POOL\<rparr>]"

text \<open>The small class of \<open>three_classes\<close>, initialised as pool 1 on the machine after reset.\<close>

definition small_pool_ready :: "memory_pool \<times> machine" where
  "small_pool_ready =
    snd (init_memory_pool 0x3FFB0000 0x3FFC0000 True (three_classes ! 0) 1 boot_machine)"

text \<open>
  The registry of \<open>three_classes\<close> as \<open>app_main\<close> initialises it, with buffers 4 KiB
  apart and every mutex created; \<open>all_taken\<close> is an environment in which every mutex is
  obtained.
\<close>

definition all_taken :: "nat \<Rightarrow> bool" where
  "all_taken i = True"

definition buffer_of :: "nat \<Rightarrow> addr" where
  "buffer_of i = 0x3FFB0000 + of_nat i * 0x1000"

definition bitmap_of :: "nat \<Rightarrow> addr" where
  "bitmap_of i = 0x3FFC0000 + of_nat i * 0x10"

definition three_pools_ready :: "memory_pool list \<times> machine" where
  "three_pools_ready = snd (init_pools buffer_of bitmap_of all_taken three_classes boot_machine)"

text \<open>
  That registry after one request for 200 bytes, which takes the only block of the 256-byte
  class, and after one request for 2000 bytes; the general-purpose allocator answers with
  \<open>0x3FFD0000\<close>.
\<close>

definition after_request_200 :: "memory_pool list \<times> machine" where
  "after_request_200 =
    snd (smart_pool_malloc all_taken 10 0x3FFD0000 three_classes 200
           (fst three_pools_ready) (snd three_pools_ready))"

definition after_request_2000 :: "memory_pool list \<times> machine" where
  "after_request_2000 =
    snd (smart_pool_malloc all_taken 10 0x3FFD0000 three_classes 2000
           (fst three_pools_ready) (snd three_pools_ready))"

text \<open>
  The tracker of lab 1 after one allocation of 64 bytes recorded at time 0, and a tracker
  whose table has no inactive slot left.
\<close>

definition tracked_once :: tracker where
  "tracked_once =
    fst (snd (tracked_malloc True 0 0x3FFD0000 64 MALLOC_CAP_INTERNAL (Some ''buf'')
                initial_tracker boot_machine))"

definition full_tracker :: tracker where
  "full_tracker =
    initial_tracker\<lparr>allocations := replicate MAX_ALLOCATIONS (zeroed_allocation\<lparr>is_active := True\<rparr>)\<rparr>"


section \<open>Lab 2: properties of the pools\<close>

subsection \<open>Word arithmetic\<close>

lemma magic_distinct: "POOL_MAGIC_FREE \<noteq> POOL_MAGIC_ALLOC"
  by (simp add: POOL_MAGIC_FREE_def POOL_MAGIC_ALLOC_def)

lemma unat_succ32: "unat (a :: 32 word) + 1 < 2 ^ 32 \<Longrightarrow> unat (a + 1) = unat a + 1"
  by (simp add: unat_word_ariths)

lemma unat_pred32: "0 < unat (a :: 32 word) \<Longrightarrow> unat (a - 1) = unat a - 1"
  by (metis unat_minus_one unat_gt_0)

lemma ucast_succ: "unat (a :: 32 word) + 1 < 2 ^ 32 \<Longrightarrow> (ucast (a + 1) :: 64 word) = ucast a + 1"
  by (metis (mono_tags, lifting) of_nat_1 of_nat_add of_nat_unat unat_succ32)

lemma ucast_pred:
  assumes "0 < unat (a :: 32 word)"
  shows "(ucast (a - 1) :: 64 word) = ucast a - 1"
proof -
  have "(ucast (a - 1) :: 64 word) = of_nat (unat (a - 1))"
    by (simp add: of_nat_unat)
  also have "\<dots> = of_nat (unat a - 1)"
    using assms by (simp add: unat_pred32)
  also have "\<dots> = of_nat (unat a) - 1"
    using assms by (simp add: of_nat_diff)
  finally show ?thesis
    by (simp add: of_nat_unat)
qed

lemma unat_block_at:
  fixes mem stride :: "32 word"
  assumes fits: "unat mem + K * unat stride \<le> 2 ^ 32" and i: "i < K"
  shows "unat (mem + of_nat i * stride) = unat mem + i * unat stride"
proof -
  have "Suc i * unat stride \<le> K * unat stride"
    using i by (intro mult_le_mono1) simp
  then have le: "unat mem + i * unat stride + unat stride \<le> 2 ^ 32"
    using fits by simp
  have small: "unat mem + i * unat stride < 2 ^ 32"
  proof (cases "unat stride = 0")
    case True
    then show ?thesis using unsigned_less [of mem] by simp
  next
    case False
    then show ?thesis using le by simp
  qed
  then have prod_small: "i * unat stride < 2 ^ 32" by simp
  have "unat (of_nat i * stride) = (i mod 2 ^ 32 * unat stride) mod 2 ^ 32"
    by (simp add: unat_word_ariths unat_of_nat)
  also have "\<dots> = (i * unat stride) mod 2 ^ 32"
    by (simp add: mod_mult_left_eq)
  also have "\<dots> = i * unat stride"
    using prod_small by simp
  finally have prod: "unat (of_nat i * stride) = i * unat stride" .
  have "unat mem + unat (of_nat i * stride) < 2 ^ LENGTH(32)"
    using small prod by simp
  then have "unat (mem + of_nat i * stride) = unat mem + unat (of_nat i * stride)"
    by (rule unat_add_lem [THEN iffD1])
  then show ?thesis
    by (simp only: prod)
qed

lemma of_nat_inj32:
  assumes "i < 2 ^ 32" and "j < 2 ^ 32" and "(of_nat i :: 32 word) = of_nat j"
  shows "i = j"
proof -
  have i: "unat (of_nat i :: 32 word) = i" and j: "unat (of_nat j :: 32 word) = j"
    using assms(1,2) by (simp_all add: unat_of_nat)
  have "unat (of_nat i :: 32 word) = unat (of_nat j :: 32 word)"
    by (simp only: assms(3))
  then show ?thesis by (simp only: i j)
qed

subsection \<open>Byte ranges\<close>

lemma span_4: "span a 4 = {a, a + 1, a + 2, a + 3}"
proof -
  have "{..<4::nat} = {0, 1, 2, 3}" by auto
  then show ?thesis by (simp add: span_def)
qed

lemma span_offset: "off + n \<le> N \<Longrightarrow> span (a + of_nat off) n \<subseteq> span a N"
proof
  fix x assume le: "off + n \<le> N" and "x \<in> span (a + of_nat off) n"
  then obtain k where k: "k < n" and x: "x = a + of_nat off + of_nat k"
    by (auto simp: span_def)
  have "x = a + of_nat (off + k)" by (simp add: x)
  moreover have "off + k < N" using k le by simp
  ultimately show "x \<in> span a N" unfolding span_def by blast
qed

lemma span_fields_disjoint:
  assumes "off1 + n1 \<le> off2" and "off2 + n2 \<le> 2 ^ 32"
  shows "span (a + of_nat off1) n1 \<inter> span (a + of_nat off2) n2 = {}"
proof (rule ccontr)
  assume "span (a + of_nat off1) n1 \<inter> span (a + of_nat off2) n2 \<noteq> {}"
  then obtain i j where i: "i < n1" and j: "j < n2"
    and eq: "a + of_nat off1 + of_nat i = a + of_nat off2 + (of_nat j :: 32 word)"
    by (auto simp: span_def)
  have "(of_nat (off1 + i) :: 32 word) = of_nat (off2 + j)"
    using eq by (simp only: of_nat_add add.assoc add_left_cancel)
  moreover have "off1 + i < 2 ^ 32" "off2 + j < 2 ^ 32"
    using assms i j by simp_all
  ultimately have "off1 + i = off2 + j"
    by (intro of_nat_inj32)
  then show False using assms i j by simp
qed

lemma span_unat:
  assumes "unat a + n \<le> 2 ^ 32" and "x \<in> span a n"
  shows "unat a \<le> unat x \<and> unat x < unat a + n"
proof -
  obtain k where k: "k < n" and x: "x = a + of_nat k"
    using assms(2) by (auto simp: span_def)
  have "unat (of_nat k :: 32 word) = k"
    using k assms(1) by (simp add: unat_of_nat)
  moreover have "unat a + unat (of_nat k :: 32 word) < 2 ^ LENGTH(32)"
    using k assms(1) calculation by simp
  then have "unat (a + of_nat k) = unat a + unat (of_nat k :: 32 word)"
    by (rule unat_add_lem [THEN iffD1])
  ultimately have "unat x = unat a + k" using x by simp
  then show ?thesis using k by simp
qed

lemma span_mono: "n \<le> N \<Longrightarrow> span a n \<subseteq> span a N"
  by (auto simp: span_def)

lemma spans_disjoint:
  assumes "unat a + n \<le> unat b" and "unat b + k \<le> 2 ^ 32"
  shows "span a n \<inter> span b k = {}"
proof (rule ccontr)
  assume "span a n \<inter> span b k \<noteq> {}"
  then obtain x where xa: "x \<in> span a n" and xb: "x \<in> span b k" by auto
  have "unat b < 2 ^ 32" using unsigned_less [of b] by simp
  then have a: "unat a + n \<le> 2 ^ 32" using assms(1) by simp
  from span_unat [OF a xa] span_unat [OF assms(2) xb] assms(1) show False
    by linarith
qed

lemma apart_sym: "apart a b \<Longrightarrow> apart b a"
  by (auto simp: apart_def)

lemma apart_neq: "apart a b \<Longrightarrow> a \<noteq> b"
  by (auto simp: apart_def sizeof_memory_block_def)

lemma apart_disjoint:
  assumes "apart a b"
  shows "span a 24 \<inter> span b 24 = {}"
proof -
  have "unat a + 24 \<le> unat b \<and> unat b + 24 \<le> 2 ^ 32 \<or> unat b + 24 \<le> unat a \<and> unat a + 24 \<le> 2 ^ 32"
    using assms by (auto simp add: apart_def sizeof_memory_block_def)
  then show ?thesis
    using spans_disjoint [of a 24 b 24] spans_disjoint [of b 24 a 24] by blast
qed

subsection \<open>Loads and stores\<close>

lemma bytes_join32:
  "ucast (ucast v :: byte) OR push_bit 8 (ucast (ucast (drop_bit 8 v) :: byte))
     OR push_bit 16 (ucast (ucast (drop_bit 16 v) :: byte))
     OR push_bit 24 (ucast (ucast (drop_bit 24 v) :: byte)) = (v :: 32 word)"
proof (rule bit_word_eqI)
  fix n :: nat
  assume "n < LENGTH(32)"
  then consider "n < 8" | "8 \<le> n" "n < 16" | "16 \<le> n" "n < 24" | "24 \<le> n" "n < 32"
    by fastforce
  then show "bit ((ucast (ucast v :: byte) OR push_bit 8 (ucast (ucast (drop_bit 8 v) :: byte))
     OR push_bit 16 (ucast (ucast (drop_bit 16 v) :: byte))
     OR push_bit 24 (ucast (ucast (drop_bit 24 v) :: byte))) :: 32 word) n = bit v n"
    by cases (auto simp add: bit_simps)
qed

lemma halves_join64:
  "ucast (ucast v :: 32 word) OR push_bit 32 (ucast (ucast (drop_bit 32 v) :: 32 word)) = (v :: 64 word)"
  by (rule bit_word_eqI) (auto simp add: bit_simps)

lemma load32_zero: "load32 (\<lambda>_. 0) a = 0"
  by (simp add: load32_def)

lemma load32_store32_same: "load32 (store32 a v ram) a = v"
  by (simp add: load32_def store32_def bytes_join32)

lemma store32_outside: "x \<notin> span a 4 \<Longrightarrow> store32 a v ram x = ram x"
  by (simp add: span_4 store32_def)

lemma store64_outside: "x \<notin> span a 8 \<Longrightarrow> store64 a v ram x = ram x"
proof -
  assume x: "x \<notin> span a 8"
  have "span (a + of_nat 0) 4 \<subseteq> span a 8" "span (a + of_nat 4) 4 \<subseteq> span a 8"
    by (rule span_offset, simp)+
  then have "x \<notin> span a 4" "x \<notin> span (a + 4) 4"
    using x by auto
  then show ?thesis by (simp add: store64_def store32_outside)
qed

lemma load32_cong: "(\<And>x. x \<in> span a 4 \<Longrightarrow> ram x = ram' x) \<Longrightarrow> load32 ram a = load32 ram' a"
  by (simp add: load32_def span_4)

lemma load32_store32_disj:
  "span a 4 \<inter> span b 4 = {} \<Longrightarrow> load32 (store32 a v ram) b = load32 ram b"
proof (rule load32_cong)
  fix x assume "span a 4 \<inter> span b 4 = {}" and "x \<in> span b 4"
  then have "x \<notin> span a 4" by blast
  then show "store32 a v ram x = ram x" by (rule store32_outside)
qed

lemma load32_store32_far:
  assumes "unat a + 4 \<le> unat b \<and> unat b + 4 \<le> 2 ^ 32 \<or> unat b + 4 \<le> unat a \<and> unat a + 4 \<le> 2 ^ 32"
  shows "load32 (store32 a v ram) b = load32 ram b"
proof (rule load32_store32_disj)
  show "span a 4 \<inter> span b 4 = {}"
    using assms spans_disjoint [of a 4 b 4] spans_disjoint [of b 4 a 4] by blast
qed

lemma load32_store32_fields:
  assumes "i + 4 \<le> j \<or> j + 4 \<le> i" and "i + 4 \<le> 2 ^ 32" and "j + 4 \<le> 2 ^ 32"
  shows "load32 (store32 (b + of_nat i) v ram) (b + of_nat j) = load32 ram (b + of_nat j)"
proof (rule load32_store32_disj)
  show "span (b + of_nat i) 4 \<inter> span (b + of_nat j) 4 = {}"
    using assms span_fields_disjoint [of i 4 j 4 b] span_fields_disjoint [of j 4 i 4 b]
    by blast
qed

lemma load32_store64_low: "load32 (store64 a v ram) a = ucast v"
proof -
  have "load32 (store32 (a + of_nat 4) (ucast (drop_bit 32 v)) (store32 a (ucast v) ram)) (a + of_nat 0)
          = load32 (store32 a (ucast v) ram) (a + of_nat 0)"
    by (rule load32_store32_fields) simp_all
  then show ?thesis by (simp add: store64_def load32_store32_same)
qed

lemma load32_store64_high: "load32 (store64 a v ram) (a + 4) = ucast (drop_bit 32 v)"
  by (simp add: store64_def load32_store32_same)

lemma load64_store64_same: "load64 (store64 a v ram) a = v"
  by (simp add: load64_def load32_store64_low load32_store64_high halves_join64)

lemma load32_store64_fields:
  assumes "j + 4 \<le> i \<or> i + 8 \<le> j" and "i + 8 \<le> 2 ^ 32" and "j + 4 \<le> 2 ^ 32"
  shows "load32 (store64 (b + of_nat i) v ram) (b + of_nat j) = load32 ram (b + of_nat j)"
proof -
  have "load32 (store32 (b + of_nat (i + 4)) (ucast (drop_bit 32 v))
                  (store32 (b + of_nat i) (ucast v) ram)) (b + of_nat j)
        = load32 (store32 (b + of_nat i) (ucast v) ram) (b + of_nat j)"
    using assms by (intro load32_store32_fields) auto
  also have "\<dots> = load32 ram (b + of_nat j)"
    using assms by (intro load32_store32_fields) auto
  finally show ?thesis
    by (simp add: store64_def add.assoc)
qed

subsection \<open>Header fields\<close>

lemma block_next_set_next: "block_next (set_next b v ram) b = v"
  by (simp add: block_next_def set_next_def load32_store32_same)

lemma block_next_set_magic: "block_next (set_magic b v ram) b = block_next ram b"
  using load32_store32_fields [of 4 0 b v ram] by (simp add: block_next_def set_magic_def)

lemma block_next_set_pool_id: "block_next (set_pool_id b v ram) b = block_next ram b"
  using load32_store32_fields [of 8 0 b v ram] by (simp add: block_next_def set_pool_id_def)

lemma block_next_set_alloc_time: "block_next (set_alloc_time b v ram) b = block_next ram b"
  using load32_store64_fields [of 0 16 b v ram] by (simp add: block_next_def set_alloc_time_def)

lemma block_magic_set_magic: "block_magic (set_magic b v ram) b = v"
  by (simp add: block_magic_def set_magic_def load32_store32_same)

lemma block_magic_set_next: "block_magic (set_next b v ram) b = block_magic ram b"
  using load32_store32_fields [of 0 4 b v ram] by (simp add: block_magic_def set_next_def)

lemma block_magic_set_pool_id: "block_magic (set_pool_id b v ram) b = block_magic ram b"
  using load32_store32_fields [of 8 4 b v ram] by (simp add: block_magic_def set_pool_id_def)

lemma block_magic_set_alloc_time: "block_magic (set_alloc_time b v ram) b = block_magic ram b"
  using load32_store64_fields [of 4 16 b v ram] by (simp add: block_magic_def set_alloc_time_def)

lemma block_pool_id_set_pool_id: "block_pool_id (set_pool_id b v ram) b = v"
  by (simp add: block_pool_id_def set_pool_id_def load32_store32_same)

lemma block_pool_id_set_next: "block_pool_id (set_next b v ram) b = block_pool_id ram b"
  using load32_store32_fields [of 0 8 b v ram] by (simp add: block_pool_id_def set_next_def)

lemma block_pool_id_set_magic: "block_pool_id (set_magic b v ram) b = block_pool_id ram b"
  using load32_store32_fields [of 4 8 b v ram] by (simp add: block_pool_id_def set_magic_def)

lemma block_pool_id_set_alloc_time: "block_pool_id (set_alloc_time b v ram) b = block_pool_id ram b"
  using load32_store64_fields [of 8 16 b v ram] by (simp add: block_pool_id_def set_alloc_time_def)

lemma block_alloc_time_set_alloc_time: "block_alloc_time (set_alloc_time b v ram) b = v"
  by (simp add: block_alloc_time_def set_alloc_time_def load64_store64_same)

lemmas same_block_fields =
  block_next_set_next block_next_set_magic block_next_set_pool_id block_next_set_alloc_time
  block_magic_set_magic block_magic_set_next block_magic_set_pool_id block_magic_set_alloc_time
  block_pool_id_set_pool_id block_pool_id_set_next block_pool_id_set_magic
  block_pool_id_set_alloc_time block_alloc_time_set_alloc_time

text \<open>Every header write stays inside the 24 bytes of the header it is made to.\<close>

lemma set_next_outside: "x \<notin> span b 24 \<Longrightarrow> set_next b v ram x = ram x"
  using span_mono [of 4 24 b] by (auto simp add: set_next_def intro: store32_outside)

lemma set_magic_outside: "x \<notin> span b 24 \<Longrightarrow> set_magic b v ram x = ram x"
  using span_offset [of 4 4 24 b] by (auto simp add: set_magic_def intro: store32_outside)

lemma set_pool_id_outside: "x \<notin> span b 24 \<Longrightarrow> set_pool_id b v ram x = ram x"
  using span_offset [of 8 4 24 b] by (auto simp add: set_pool_id_def intro: store32_outside)

lemma set_alloc_time_outside: "x \<notin> span b 24 \<Longrightarrow> set_alloc_time b v ram x = ram x"
  using span_offset [of 16 8 24 b] by (auto simp add: set_alloc_time_def intro: store64_outside)

lemmas header_write_outside =
  set_next_outside set_magic_outside set_pool_id_outside set_alloc_time_outside

text \<open>Every header read of the three list fields looks only at the header's bytes.\<close>

lemma block_next_cong:
  "(\<And>x. x \<in> span b 4 \<Longrightarrow> ram x = ram' x) \<Longrightarrow> block_next ram b = block_next ram' b"
  unfolding block_next_def by (rule load32_cong)

lemma block_magic_cong:
  assumes "\<And>x. x \<in> span b 24 \<Longrightarrow> ram x = ram' x"
  shows "block_magic ram b = block_magic ram' b"
  unfolding block_magic_def
proof (rule load32_cong)
  fix x assume "x \<in> span (b + 4) 4"
  then have "x \<in> span b 24" using span_offset [of 4 4 24 b] by auto
  then show "ram x = ram' x" by (rule assms)
qed

lemma block_pool_id_cong:
  assumes "\<And>x. x \<in> span b 24 \<Longrightarrow> ram x = ram' x"
  shows "block_pool_id ram b = block_pool_id ram' b"
  unfolding block_pool_id_def
proof (rule load32_cong)
  fix x assume "x \<in> span (b + 8) 4"
  then have "x \<in> span b 24" using span_offset [of 8 4 24 b] by auto
  then show "ram x = ram' x" by (rule assms)
qed

lemma chain_cong:
  assumes "\<And>b x. b \<in> set bs \<Longrightarrow> x \<in> span b 4 \<Longrightarrow> ram x = ram' x"
  shows "chain ram p bs = chain ram' p bs"
  using assms
proof (induction bs arbitrary: p)
  case Nil
  then show ?case by simp
next
  case (Cons b bs)
  have "block_next ram b = block_next ram' b"
    using Cons.prems by (intro block_next_cong) auto
  moreover have "chain ram q bs = chain ram' q bs" for q
    using Cons.prems by (intro Cons.IH) auto
  ultimately show ?case by simp
qed

lemma chain_NULL: "chain ram NULL bs \<longleftrightarrow> bs = []"
  by (cases bs) auto

subsection \<open>Block addresses\<close>

lemma low_bits_clear: "take_bit 2 ((x :: 32 word) AND NOT 3) = 0"
  by (rule bit_word_eqI) (auto simp add: bit_simps)

lemma unat_aligned: "unat ((x :: 32 word) AND NOT 3) mod 4 = 0"
proof -
  have "(x AND NOT 3) mod 4 = 0"
    using low_bits_clear [of x] by (simp add: take_bit_eq_mod)
  then have "unat ((x AND NOT 3) mod 4) = 0" by simp
  then show ?thesis by (simp add: unat_mod)
qed

lemma pool_stride_aligned: "unat (pool_stride config) mod 4 = 0"
proof -
  let ?y = "(pool_config.block_size config + 4 - 1) AND NOT 3"
  have "unat (24 + ?y) = (24 + unat ?y) mod 2 ^ 32"
    by (simp add: unat_word_ariths)
  moreover have "(24 + unat ?y) mod 2 ^ 32 mod 4 = (24 + unat ?y) mod 4"
    by (rule mod_mod_cancel) simp
  moreover have "(24 + unat ?y) mod 4 = 0"
    using unat_aligned [of "pool_config.block_size config + 4 - 1"] by presburger
  ultimately have "unat (24 + ?y) mod 4 = 0" by simp
  then show ?thesis by (simp add: pool_stride_def sizeof_memory_block_def)
qed

lemma pool_stride_ge_4: "pool_stride config \<noteq> 0 \<Longrightarrow> 4 \<le> unat (pool_stride config)"
proof -
  assume "pool_stride config \<noteq> 0"
  then have "0 < unat (pool_stride config)" by (simp add: unat_gt_0)
  then show ?thesis using pool_stride_aligned [of config] by presburger
qed

lemma block_at_unat:
  assumes "buffer_fits mem config" and "i < unat (pool_config.block_count config)"
  shows "unat (block_at mem config i) = unat mem + i * unat (pool_stride config)"
  using assms unfolding buffer_fits_def block_at_def
  by (intro unat_block_at) auto

lemma block_at_not_NULL:
  assumes "buffer_fits mem config" and "i < unat (pool_config.block_count config)"
  shows "block_at mem config i \<noteq> NULL"
proof
  assume "block_at mem config i = NULL"
  then have "unat (block_at mem config i) = 0" by simp
  then have "unat mem = 0" using block_at_unat [OF assms] by simp
  then show False using assms(1) by (simp add: buffer_fits_def unat_eq_zero)
qed

lemma block_at_inj:
  assumes fits: "buffer_fits mem config"
    and i: "i < unat (pool_config.block_count config)"
    and j: "j < unat (pool_config.block_count config)"
    and eq: "block_at mem config i = block_at mem config j"
  shows "i = j"
proof -
  have "unat mem + i * unat (pool_stride config) = unat mem + j * unat (pool_stride config)"
    unfolding block_at_unat [OF fits i, symmetric] block_at_unat [OF fits j, symmetric] eq ..
  moreover have "0 < unat (pool_stride config)"
    using fits by (simp add: buffer_fits_def unat_gt_0)
  ultimately show ?thesis by simp
qed

lemma block_at_step:
  assumes fits: "buffer_fits mem config"
    and ij: "i < j" and j: "j < unat (pool_config.block_count config)"
  shows "unat (block_at mem config i) + unat (pool_stride config) \<le> unat (block_at mem config j)"
proof -
  have "Suc i * unat (pool_stride config) \<le> j * unat (pool_stride config)"
    using ij by (intro mult_le_mono1) simp
  then show ?thesis
    using block_at_unat [OF fits, of i] block_at_unat [OF fits j] ij j by simp
qed

lemma stride_headers_inside:
  assumes fits: "buffer_fits mem config" and stride: "stride_holds_header config"
  shows "headers_inside mem config"
  unfolding headers_inside_def
proof (intro allI impI)
  fix i assume i: "i < unat (pool_config.block_count config)"
  have "Suc i * unat (pool_stride config) \<le> unat (pool_config.block_count config) * unat (pool_stride config)"
    using i by (intro mult_le_mono1) simp
  then have "unat mem + i * unat (pool_stride config) + unat (pool_stride config) \<le> 2 ^ 32"
    using fits by (simp add: buffer_fits_def)
  moreover have "unat sizeof_memory_block \<le> unat (pool_stride config)"
    using stride by (simp add: stride_holds_header_def word_le_nat_alt)
  ultimately show "unat (block_at mem config i) + unat sizeof_memory_block \<le> 2 ^ 32"
    using block_at_unat [OF fits i] by simp
qed

lemma blocks_apart:
  assumes fits: "buffer_fits mem config" and stride: "stride_holds_header config"
    and i: "i < unat (pool_config.block_count config)"
    and j: "j < unat (pool_config.block_count config)"
    and ne: "i \<noteq> j"
  shows "apart (block_at mem config i) (block_at mem config j)"
proof -
  note inside = stride_headers_inside [OF fits stride, unfolded headers_inside_def, rule_format]
  have s: "unat sizeof_memory_block \<le> unat (pool_stride config)"
    using stride by (simp add: stride_holds_header_def word_le_nat_alt)
  consider "i < j" | "j < i" using ne by linarith
  then show ?thesis
  proof cases
    case 1
    then show ?thesis
      using block_at_step [OF fits 1 j] s inside [OF i] inside [OF j] by (simp add: apart_def)
  next
    case 2
    then show ?thesis
      using block_at_step [OF fits 2 i] s inside [OF i] inside [OF j] by (simp add: apart_def)
  qed
qed

text \<open>
  A header write to a block does not reach the \<open>next\<close> field of a block below it, whether
  or not the stride has wrapped.
\<close>

lemma lower_next_untouched:
  assumes fits: "buffer_fits mem config" and inside: "headers_inside mem config"
    and ij: "i < j" and j: "j < unat (pool_config.block_count config)"
    and x: "x \<in> span (block_at mem config i) 4"
  shows "x \<notin> span (block_at mem config j) 24"
proof
  assume xj: "x \<in> span (block_at mem config j) 24"
  have i: "i < unat (pool_config.block_count config)" using ij j by simp
  have hj: "unat (block_at mem config j) + 24 \<le> 2 ^ 32"
    using inside j by (simp add: headers_inside_def sizeof_memory_block_def)
  have "4 \<le> unat (pool_stride config)"
    using fits by (intro pool_stride_ge_4) (simp add: buffer_fits_def)
  then have le: "unat (block_at mem config i) + 4 \<le> unat (block_at mem config j)"
    using block_at_step [OF fits ij j] by simp
  then have hi: "unat (block_at mem config i) + 4 \<le> 2 ^ 32"
    using hj by simp
  from span_unat [OF hi x] span_unat [OF hj xj] le show False
    by linarith
qed

subsection \<open>Initialisation\<close>

lemma init_block_writes:
  "init_block mem stride pid i (fl, ram) =
     (mem + of_nat i * stride,
      set_next (mem + of_nat i * stride) fl
        (set_pool_id (mem + of_nat i * stride) pid
          (set_magic (mem + of_nat i * stride) POOL_MAGIC_FREE ram)))"
  by (simp add: init_block_def Let_def)

lemma init_block_outside:
  assumes "x \<notin> span b 24"
  shows "set_next b fl (set_pool_id b pid (set_magic b tag ram)) x = ram x"
  using assms by (simp add: header_write_outside)

lemma init_loop:
  assumes fits: "buffer_fits mem config" and inside: "headers_inside mem config"
    and n: "n \<le> unat (pool_config.block_count config)"
    and loop: "fold (init_block mem (pool_stride config) pid) [0 ..< n] (NULL, ram0) = (fl, ram)"
  shows "chain ram fl (rev (map (block_at mem config) [0 ..< n])) \<and>
         (stride_holds_header config \<longrightarrow>
            (\<forall>i<n. block_magic ram (block_at mem config i) = POOL_MAGIC_FREE \<and>
                   block_pool_id ram (block_at mem config i) = pid))"
  using n loop
proof (induction n arbitrary: fl ram)
  case 0
  then show ?case by simp
next
  case (Suc n)
  obtain fl' ram' where prev:
    "fold (init_block mem (pool_stride config) pid) [0 ..< n] (NULL, ram0) = (fl', ram')"
    by (cases "fold (init_block mem (pool_stride config) pid) [0 ..< n] (NULL, ram0)")
  have n: "n < unat (pool_config.block_count config)" using Suc.prems by simp
  have IH: "chain ram' fl' (rev (map (block_at mem config) [0 ..< n]))"
    "stride_holds_header config \<Longrightarrow> i < n \<Longrightarrow>
       block_magic ram' (block_at mem config i) = POOL_MAGIC_FREE \<and>
       block_pool_id ram' (block_at mem config i) = pid" for i
    using Suc.IH [OF _ prev] n by simp_all
  let ?b = "block_at mem config n"
  have last_step: "init_block mem (pool_stride config) pid n (fl', ram') = (fl, ram)"
    using Suc.prems(2) prev by simp
  have fl: "fl = ?b"
    and ram: "ram = set_next ?b fl' (set_pool_id ?b pid (set_magic ?b POOL_MAGIC_FREE ram'))"
    using last_step unfolding init_block_writes block_at_def by auto
  have nn: "?b \<noteq> NULL" by (rule block_at_not_NULL [OF fits n])
  have "chain ram fl' (rev (map (block_at mem config) [0 ..< n]))
          = chain ram' fl' (rev (map (block_at mem config) [0 ..< n]))"
  proof (rule chain_cong)
    fix b x
    assume "b \<in> set (rev (map (block_at mem config) [0 ..< n]))" and x: "x \<in> span b 4"
    then obtain i where i: "i < n" and b: "b = block_at mem config i" by auto
    have "x \<notin> span ?b 24"
      using lower_next_untouched [OF fits inside i n] x b by simp
    then show "ram x = ram' x"
      unfolding ram by (rule init_block_outside)
  qed
  then have "chain ram ?b (?b # rev (map (block_at mem config) [0 ..< n]))"
    using IH(1) nn by (simp add: ram same_block_fields)
  then have c: "chain ram fl (rev (map (block_at mem config) [0 ..< Suc n]))"
    by (simp add: fl)
  have tags: "block_magic ram (block_at mem config i) = POOL_MAGIC_FREE \<and>
              block_pool_id ram (block_at mem config i) = pid"
    if stride: "stride_holds_header config" and i: "i < Suc n" for i
  proof (cases "i = n")
    case True
    then show ?thesis by (simp add: ram same_block_fields)
  next
    case False
    then have lt: "i < n" using i by simp
    have "apart ?b (block_at mem config i)"
      using blocks_apart [OF fits stride n _ ] lt n by simp
    then have disj: "span ?b 24 \<inter> span (block_at mem config i) 24 = {}"
      by (rule apart_disjoint)
    have same: "ram x = ram' x" if "x \<in> span (block_at mem config i) 24" for x
    proof -
      have "x \<notin> span ?b 24" using that disj by blast
      then show ?thesis unfolding ram by (rule init_block_outside)
    qed
    have "block_magic ram (block_at mem config i) = block_magic ram' (block_at mem config i)"
      by (rule block_magic_cong) (rule same)
    moreover have "block_pool_id ram (block_at mem config i) = block_pool_id ram' (block_at mem config i)"
      by (rule block_pool_id_cong) (rule same)
    ultimately show ?thesis using IH(2) [OF stride lt] by simp
  qed
  show ?case using c tags by blast
qed

lemma init_memory_pool_ok:
  assumes "init_memory_pool mem bitmap mtx config pid m0 = (True, pool, m)"
  shows "mem \<noteq> NULL"
    and "memory_pool.block_count pool = pool_config.block_count config"
    and "allocated_blocks pool = 0"
    and "memory_pool.total_allocations pool = 0"
    and "memory_pool.total_deallocations pool = 0"
    and "memory_pool.allocation_failures pool = 0"
    and "memory_pool.peak_usage pool = 0"
    and "mutex pool = mtx"
    and "memory_pool.pool_id pool = pid"
    and "fold (init_block mem (pool_stride config) pid)
           [0 ..< unat (pool_config.block_count config)] (NULL, memory m0) = (free_list pool, memory m)"
  using assms
  by (auto simp add: init_memory_pool_def Let_def zeroed_pool_def pool_stride_def
      split: if_splits prod.splits)

lemma init_memory_pool_chain:
  assumes init: "init_memory_pool mem bitmap mtx config pid m0 = (True, pool, m)"
    and fits: "buffer_fits mem config" and inside: "headers_inside mem config"
  shows "chain (memory m) (free_list pool)
           (rev (map (block_at mem config) [0 ..< unat (pool_config.block_count config)]))"
  using init_loop [OF fits inside order_refl init_memory_pool_ok(10) [OF init]] by blast

lemma init_memory_pool_inv:
  assumes init: "init_memory_pool mem bitmap mtx config pid m0 = (True, pool, m)"
    and fits: "buffer_fits mem config" and stride: "stride_holds_header config"
  shows "free_list_inv (pool_blocks mem config)
           (rev (map (block_at mem config) [0 ..< unat (pool_config.block_count config)])) pool m"
proof -
  let ?K = "unat (pool_config.block_count config)"
  let ?B = "block_at mem config ` {..< ?K}"
  let ?fl = "rev (map (block_at mem config) [0 ..< ?K])"
  note ok = init_memory_pool_ok [OF init]
  note inside = stride_headers_inside [OF fits stride]
  note loop = init_loop [OF fits inside order_refl ok(10)]
  have inj: "inj_on (block_at mem config) {..< ?K}"
    by (rule inj_onI) (auto intro: block_at_inj [OF fits])
  have card: "card ?B = ?K"
    using inj by (simp add: card_image)
  have nonnull: "NULL \<notin> ?B"
    using block_at_not_NULL [OF fits] by force
  have dist: "distinct ?fl"
    using inj by (simp add: distinct_map atLeast0LessThan)
  have setfl: "set ?fl = ?B"
    by (simp add: atLeast0LessThan)
  have ap: "\<forall>a\<in>?B. \<forall>b\<in>?B. a \<noteq> b \<longrightarrow> apart a b"
    using blocks_apart [OF fits stride] by auto
  have tags: "\<forall>b\<in>?B. block_pool_id (memory m) b = memory_pool.pool_id pool \<and>
             (block_magic (memory m) b = POOL_MAGIC_ALLOC \<longleftrightarrow> b \<notin> set ?fl)"
    using loop stride ok(9) magic_distinct by (auto simp add: atLeast0LessThan)
  have c: "chain (memory m) (free_list pool) ?fl"
    using loop by blast
  show ?thesis
    unfolding free_list_inv_def pool_blocks_def
    using card nonnull dist setfl tags c ap ok by simp
qed

subsection \<open>Writes to one header and reads of another\<close>

lemma malloc_writes_outside:
  "y \<notin> span b 24 \<Longrightarrow> set_alloc_time b now (set_magic b tag ram) y = ram y"
  by (simp add: header_write_outside)

lemma free_writes_outside:
  "y \<notin> span b 24 \<Longrightarrow> set_next b v (set_magic b tag ram) y = ram y"
  by (simp add: header_write_outside)

lemma other_block_unchanged:
  assumes ap: "apart b x" and out: "\<And>y. y \<notin> span b 24 \<Longrightarrow> ram' y = ram y"
  shows "block_next ram' x = block_next ram x"
    and "block_magic ram' x = block_magic ram x"
    and "block_pool_id ram' x = block_pool_id ram x"
proof -
  have disj: "span b 24 \<inter> span x 24 = {}"
    using ap by (rule apart_disjoint)
  have same: "ram' y = ram y" if "y \<in> span x 24" for y
    using that disj out by blast
  have same4: "ram' y = ram y" if "y \<in> span x 4" for y
    using that span_mono [of 4 24 x] same by auto
  show "block_next ram' x = block_next ram x"
    by (rule block_next_cong) (rule same4)
  show "block_magic ram' x = block_magic ram x"
    by (rule block_magic_cong) (rule same)
  show "block_pool_id ram' x = block_pool_id ram x"
    by (rule block_pool_id_cong) (rule same)
qed

lemma chain_other_blocks:
  assumes ap: "\<And>x. x \<in> set bs \<Longrightarrow> apart b x"
    and out: "\<And>y. y \<notin> span b 24 \<Longrightarrow> ram' y = ram y"
  shows "chain ram' p bs = chain ram p bs"
proof (rule chain_cong)
  fix x y assume x: "x \<in> set bs" and y: "y \<in> span x 4"
  have "span b 24 \<inter> span x 24 = {}"
    using ap [OF x] by (rule apart_disjoint)
  moreover have "y \<in> span x 24"
    using y span_mono [of 4 24 x] by auto
  ultimately have "y \<notin> span b 24" by blast
  then show "ram' y = ram y" by (rule out)
qed

subsection \<open>pool\_malloc keeps the free list well formed\<close>

lemma pool_malloc_served:
  assumes "mutex pool" and "taken" and "free_list pool \<noteq> NULL"
  shows "pool_malloc taken now pool m =
    (free_list pool + sizeof_memory_block,
     pool\<lparr>free_list := block_next (memory m) (free_list pool),
          allocated_blocks := allocated_blocks pool + 1,
          memory_pool.total_allocations := memory_pool.total_allocations pool + 1\<rparr>,
     m\<lparr>memory := set_alloc_time (free_list pool) now
                    (set_magic (free_list pool) POOL_MAGIC_ALLOC (memory m))\<rparr>)"
  using assms by (simp add: pool_malloc_def Let_def)

lemma pool_malloc_not_served:
  assumes "\<not> (mutex pool \<and> taken \<and> free_list pool \<noteq> NULL)"
  shows "pool_malloc taken now pool m =
    (NULL,
     if mutex pool \<and> taken
     then pool\<lparr>memory_pool.allocation_failures := memory_pool.allocation_failures pool + 1\<rparr>
     else pool,
     if mutex pool \<and> taken then m\<lparr>gpio := (gpio m)(LED_POOL_FULL := True)\<rparr> else m)"
  using assms by (auto simp add: pool_malloc_def Let_def)

lemma free_list_inv_shorter:
  assumes inv: "free_list_inv B fl pool m" and b: "b \<in> B" and nb: "b \<notin> set fl"
  shows "0 < unat (allocated_blocks pool)"
proof -
  have "set fl \<subset> B" using inv b nb by (auto simp: free_list_inv_def)
  moreover have "finite B" using inv by (simp add: free_list_inv_def)
  ultimately have "card (set fl) < card B" by (rule psubset_card_mono [rotated])
  moreover have "card (set fl) = length fl"
    using inv by (simp add: free_list_inv_def distinct_card)
  ultimately show ?thesis using inv by (simp add: free_list_inv_def)
qed

lemma pool_malloc_served_inv:
  assumes inv: "free_list_inv B fl pool m"
    and served: "mutex pool" "taken" "free_list pool \<noteq> NULL"
    and res: "pool_malloc taken now pool m = (p, pool', m')"
  shows "\<exists>fl'. fl = free_list pool # fl' \<and> free_list_inv B fl' pool' m'"
proof -
  define b where "b = free_list pool"
  define ram where "ram = memory m"
  define ram' where "ram' = set_alloc_time b now (set_magic b POOL_MAGIC_ALLOC ram)"
  have fin: "finite B" and n0: "NULL \<notin> B"
    and card: "card B = unat (memory_pool.block_count pool)"
    and ap: "\<And>x y. x \<in> B \<Longrightarrow> y \<in> B \<Longrightarrow> x \<noteq> y \<Longrightarrow> apart x y"
    and c: "chain ram (free_list pool) fl" and d: "distinct fl" and sub: "set fl \<subseteq> B"
    and tg: "\<And>x. x \<in> B \<Longrightarrow> block_pool_id ram x = memory_pool.pool_id pool \<and>
             (block_magic ram x = POOL_MAGIC_ALLOC \<longleftrightarrow> x \<notin> set fl)"
    and cnt: "unat (allocated_blocks pool) + length fl = card B"
    and tot: "memory_pool.total_allocations pool =
       memory_pool.total_deallocations pool + ucast (allocated_blocks pool)"
    using inv unfolding free_list_inv_def ram_def by blast+
  obtain fl' where fl: "fl = b # fl'" and rest: "chain ram (block_next ram b) fl'"
    using c served(3) unfolding b_def by (cases fl) auto
  have pool': "pool' = pool\<lparr>free_list := block_next ram b,
          allocated_blocks := allocated_blocks pool + 1,
          memory_pool.total_allocations := memory_pool.total_allocations pool + 1\<rparr>"
    and m': "m' = m\<lparr>memory := ram'\<rparr>"
    using res pool_malloc_served [OF served, of now m] unfolding b_def ram_def ram'_def by simp_all
  have hm': "memory m' = ram'" by (simp add: m')
  have nb: "b \<notin> set fl'" and d': "distinct fl'" and sub': "set fl' \<subseteq> B" and bB: "b \<in> B"
    using d sub fl by auto
  have out: "ram' y = ram y" if "y \<notin> span b 24" for y
    unfolding ram'_def using that by (rule malloc_writes_outside)
  have other: "apart b x" if "x \<in> B" "x \<noteq> b" for x
    using ap [OF bB that(1)] that(2) by blast
  have cnt': "unat (allocated_blocks pool) + Suc (length fl') = unat (memory_pool.block_count pool)"
    using cnt card fl by simp
  have "unat (memory_pool.block_count pool) < 2 ^ 32"
    using unsigned_less [of "memory_pool.block_count pool"] by simp
  then have room: "unat (allocated_blocks pool) + 1 < 2 ^ 32"
    using cnt' by simp
  have "chain ram' (block_next ram b) fl' = chain ram (block_next ram b) fl'"
  proof (rule chain_other_blocks [where b = b])
    fix x assume "x \<in> set fl'"
    then show "apart b x" using other [of x] sub' nb by auto
  qed (rule out)
  then have chain': "chain (memory m') (free_list pool') fl'"
    using rest by (simp add: pool' hm')
  have tags: "\<forall>x\<in>B. block_pool_id (memory m') x = memory_pool.pool_id pool' \<and>
             (block_magic (memory m') x = POOL_MAGIC_ALLOC \<longleftrightarrow> x \<notin> set fl')"
  proof
    fix x assume x: "x \<in> B"
    show "block_pool_id (memory m') x = memory_pool.pool_id pool' \<and>
             (block_magic (memory m') x = POOL_MAGIC_ALLOC \<longleftrightarrow> x \<notin> set fl')"
    proof (cases "x = b")
      case True
      then show ?thesis
        using tg [OF bB] nb by (simp add: hm' ram'_def pool' same_block_fields)
    next
      case False
      then show ?thesis
        using tg [OF x] other_block_unchanged(2,3) [OF other [OF x False], of ram' ram] out
        by (simp add: hm' pool' fl)
    qed
  qed
  have count: "unat (allocated_blocks pool') + length fl' = card B"
    using cnt' card by (simp add: pool' unat_succ32 [OF room])
  have totals: "memory_pool.total_allocations pool' =
       memory_pool.total_deallocations pool' + ucast (allocated_blocks pool')"
    using tot by (simp add: pool' ucast_succ [OF room])
  have bc: "memory_pool.block_count pool' = memory_pool.block_count pool"
    by (simp add: pool')
  have "free_list_inv B fl' pool' m'"
    unfolding free_list_inv_def
    using fin n0 card ap chain' d' sub' tags count totals bc by simp
  then show ?thesis using fl unfolding b_def by blast
qed

lemma free_list_inv_memory_cong:
  "memory m' = memory m \<Longrightarrow> free_list_inv B fl pool m' = free_list_inv B fl pool m"
  unfolding free_list_inv_def by simp

lemma pool_malloc_not_served_inv:
  assumes inv: "free_list_inv B fl pool m"
    and "\<not> (mutex pool \<and> taken \<and> free_list pool \<noteq> NULL)"
    and res: "pool_malloc taken now pool m = (p, pool', m')"
  shows "free_list_inv B fl pool' m'"
  using inv res pool_malloc_not_served [OF assms(2), of now m]
  by (auto simp: free_list_inv_def split: if_splits)

lemma pool_malloc_inv:
  assumes inv: "free_list_inv B fl pool m"
    and res: "pool_malloc taken now pool m = (p, pool', m')"
  shows "\<exists>fl'. free_list_inv B fl' pool' m'"
proof (cases "mutex pool \<and> taken \<and> free_list pool \<noteq> NULL")
  case True
  then show ?thesis using pool_malloc_served_inv [OF inv _ _ _ res] by blast
next
  case False
  then show ?thesis using pool_malloc_not_served_inv [OF inv _ res] by blast
qed

subsection \<open>pool\_free keeps the free list well formed\<close>

lemma pool_free_pushed:
  assumes "pool_free_accepts taken pool p m"
  shows "pool_free taken pool p m =
    (True,
     pool\<lparr>free_list := p - sizeof_memory_block,
          allocated_blocks := allocated_blocks pool - 1,
          memory_pool.total_deallocations := memory_pool.total_deallocations pool + 1\<rparr>,
     m\<lparr>memory := set_next (p - sizeof_memory_block) (free_list pool)
                    (set_magic (p - sizeof_memory_block) POOL_MAGIC_FREE (memory m))\<rparr>)"
  using assms by (simp add: pool_free_def pool_free_accepts_def Let_def)

lemma pool_free_not_pushed:
  assumes "\<not> pool_free_accepts taken pool p m"
  shows "fst (snd (pool_free taken pool p m)) = pool"
    and "memory (snd (snd (pool_free taken pool p m))) = memory m"
    and "heap_calls (snd (snd (pool_free taken pool p m))) = heap_calls m"
    and "log (snd (snd (pool_free taken pool p m))) = log m"
  using assms by (auto simp add: pool_free_def pool_free_accepts_def Let_def)

lemma pool_free_pushed_inv:
  assumes inv: "free_list_inv B fl pool m"
    and acc: "pool_free_accepts taken pool p m"
    and inB: "p - sizeof_memory_block \<in> B"
    and res: "pool_free taken pool p m = (ok, pool', m')"
  shows "free_list_inv B ((p - sizeof_memory_block) # fl) pool' m'"
proof -
  define b where "b = p - sizeof_memory_block"
  define ram where "ram = memory m"
  define ram' where "ram' = set_next b (free_list pool) (set_magic b POOL_MAGIC_FREE ram)"
  have fin: "finite B" and n0: "NULL \<notin> B"
    and card: "card B = unat (memory_pool.block_count pool)"
    and ap: "\<And>x y. x \<in> B \<Longrightarrow> y \<in> B \<Longrightarrow> x \<noteq> y \<Longrightarrow> apart x y"
    and c: "chain ram (free_list pool) fl" and d: "distinct fl" and sub: "set fl \<subseteq> B"
    and tg: "\<And>x. x \<in> B \<Longrightarrow> block_pool_id ram x = memory_pool.pool_id pool \<and>
             (block_magic ram x = POOL_MAGIC_ALLOC \<longleftrightarrow> x \<notin> set fl)"
    and cnt: "unat (allocated_blocks pool) + length fl = card B"
    and tot: "memory_pool.total_allocations pool =
       memory_pool.total_deallocations pool + ucast (allocated_blocks pool)"
    using inv unfolding free_list_inv_def ram_def by blast+
  have pool': "pool' = pool\<lparr>free_list := b,
          allocated_blocks := allocated_blocks pool - 1,
          memory_pool.total_deallocations := memory_pool.total_deallocations pool + 1\<rparr>"
    and m': "m' = m\<lparr>memory := ram'\<rparr>"
    using res pool_free_pushed [OF acc] unfolding b_def ram_def ram'_def by simp_all
  have hm': "memory m' = ram'" by (simp add: m')
  have vb: "block_magic ram b = POOL_MAGIC_ALLOC"
    using acc by (simp add: pool_free_accepts_def b_def ram_def)
  have bB: "b \<in> B" using inB by (simp add: b_def)
  have nb: "b \<notin> set fl"
    using tg [OF bB] vb by simp
  have pos: "0 < unat (allocated_blocks pool)"
    using free_list_inv_shorter [OF inv bB nb] .
  have nn: "b \<noteq> NULL"
    using bB n0 by blast
  have out: "ram' y = ram y" if "y \<notin> span b 24" for y
    unfolding ram'_def using that by (rule free_writes_outside)
  have other: "apart b x" if "x \<in> B" "x \<noteq> b" for x
    using ap [OF bB that(1)] that(2) by blast
  have "chain ram' (free_list pool) fl = chain ram (free_list pool) fl"
  proof (rule chain_other_blocks [where b = b])
    fix x assume "x \<in> set fl"
    then show "apart b x" using other [of x] sub nb by auto
  qed (rule out)
  then have "chain ram' (free_list pool) fl" using c by simp
  moreover have "block_next ram' b = free_list pool"
    by (simp add: ram'_def same_block_fields)
  ultimately have chain': "chain (memory m') (free_list pool') (b # fl)"
    using nn by (simp add: pool' hm')
  have tags: "\<forall>x\<in>B. block_pool_id (memory m') x = memory_pool.pool_id pool' \<and>
             (block_magic (memory m') x = POOL_MAGIC_ALLOC \<longleftrightarrow> x \<notin> set (b # fl))"
  proof
    fix x assume x: "x \<in> B"
    show "block_pool_id (memory m') x = memory_pool.pool_id pool' \<and>
             (block_magic (memory m') x = POOL_MAGIC_ALLOC \<longleftrightarrow> x \<notin> set (b # fl))"
    proof (cases "x = b")
      case True
      then show ?thesis
        using tg [OF bB] magic_distinct by (simp add: hm' ram'_def pool' same_block_fields)
    next
      case False
      then show ?thesis
        using tg [OF x] other_block_unchanged(2,3) [OF other [OF x False], of ram' ram] out
        by (simp add: hm' pool')
    qed
  qed
  have "unat (allocated_blocks pool - 1) = unat (allocated_blocks pool) - 1"
    using pos by (rule unat_pred32)
  then have count: "unat (allocated_blocks pool') + length (b # fl) = card B"
    using cnt pos by (simp add: pool')
  have totals: "memory_pool.total_allocations pool' =
       memory_pool.total_deallocations pool' + ucast (allocated_blocks pool')"
    using tot by (simp add: pool' ucast_pred [OF pos])
  have bc: "memory_pool.block_count pool' = memory_pool.block_count pool"
    by (simp add: pool')
  have "free_list_inv B (b # fl) pool' m'"
    unfolding free_list_inv_def
    using fin n0 card ap chain' d nb sub bB tags count totals bc by simp
  then show ?thesis unfolding b_def .
qed

lemma pool_free_inv:
  assumes inv: "free_list_inv B fl pool m"
    and rel: "pool_free_accepts taken pool p m \<longrightarrow> p - sizeof_memory_block \<in> B"
    and res: "pool_free taken pool p m = (ok, pool', m')"
  shows "\<exists>fl'. free_list_inv B fl' pool' m'"
proof (cases "pool_free_accepts taken pool p m")
  case True
  then have "free_list_inv B ((p - sizeof_memory_block) # fl) pool' m'"
    using rel by (intro pool_free_pushed_inv [OF inv _ _ res]) simp_all
  then show ?thesis by blast
next
  case False
  have p: "pool' = pool"
    using pool_free_not_pushed(1) [OF False] by (simp add: res)
  have h: "memory m' = memory m"
    using pool_free_not_pushed(2) [OF False] by (simp add: res)
  have "free_list_inv B fl pool' m'"
    unfolding p free_list_inv_memory_cong [OF h] by (rule inv)
  then show ?thesis by blast
qed

subsection \<open>Sequences of operations\<close>

lemma run_ops_Cons: "run_ops (op # ops) st = run_ops ops (pool_step op st)"
  by (simp add: run_ops_def)

lemma run_ops_Nil: "run_ops [] st = st"
  by (simp add: run_ops_def)

lemma pool_step_inv:
  assumes "\<exists>fl. free_list_inv B fl (fst st) (snd st)"
    and "releases_in_pool B (op # ops) st"
  shows "\<exists>fl. free_list_inv B fl (fst (pool_step op st)) (snd (pool_step op st))"
proof -
  obtain pool m where st: "st = (pool, m)" by (cases st)
  obtain fl where inv: "free_list_inv B fl pool m" using assms(1) st by auto
  show ?thesis
  proof (cases op)
    case (Allocate taken now)
    obtain p pool' m' where res: "pool_malloc taken now pool m = (p, pool', m')"
      by (cases "pool_malloc taken now pool m")
    show ?thesis
      using pool_malloc_inv [OF inv res] by (simp add: st Allocate res)
  next
    case (Release taken p)
    obtain ok pool' m' where res: "pool_free taken pool p m = (ok, pool', m')"
      by (cases "pool_free taken pool p m")
    have rel: "pool_free_accepts taken pool p m \<longrightarrow> p - sizeof_memory_block \<in> B"
      using assms(2) by (simp add: st Release)
    show ?thesis
      using pool_free_inv [OF inv rel res] by (simp add: st Release res)
  qed
qed

lemma releases_in_pool_rest:
  "releases_in_pool B (op # ops) st \<Longrightarrow> releases_in_pool B ops (pool_step op st)"
  by (cases op) simp_all

lemma run_ops_inv:
  assumes "\<exists>fl. free_list_inv B fl (fst st) (snd st)" and "releases_in_pool B ops st"
  shows "\<exists>fl. free_list_inv B fl (fst (run_ops ops st)) (snd (run_ops ops st))"
  using assms
proof (induction ops arbitrary: st)
  case Nil
  then show ?case by (simp add: run_ops_Nil)
next
  case (Cons op ops)
  have "\<exists>fl. free_list_inv B fl (fst (pool_step op st)) (snd (pool_step op st))"
    using Cons.prems by (rule pool_step_inv)
  moreover have "releases_in_pool B ops (pool_step op st)"
    using Cons.prems(2) by (rule releases_in_pool_rest)
  ultimately show ?case
    unfolding run_ops_Cons by (rule Cons.IH)
qed

lemma free_list_inv_counters:
  assumes "free_list_inv B fl pool m"
  shows "ucast (allocated_blocks pool) =
           memory_pool.total_allocations pool - memory_pool.total_deallocations pool"
    and "allocated_blocks pool \<le> memory_pool.block_count pool"
  using assms by (simp_all add: free_list_inv_def word_le_nat_alt)

lemma init_memory_pool_succeeds:
  "mem \<noteq> NULL \<Longrightarrow> bitmap \<noteq> NULL \<Longrightarrow> fst (init_memory_pool mem bitmap mtx config pid m) = True"
  by (simp add: init_memory_pool_def Let_def split_def)

lemma triple_collapse: "fst x = True \<Longrightarrow> x = (True, fst (snd x), snd (snd x))"
  by (cases x) simp

subsection \<open>Evaluating the example pool\<close>

lemma upt_0_2: "[0 ..< 2] = [0, 1]"
  by (simp add: eval_nat_numeral)

lemma small_pool_ready_eval:
  "small_pool_ready =
    (zeroed_pool\<lparr>memory_pool.name := ''Small'', memory_pool.block_size := 64,
        memory_pool.block_count := 2, alignment := 4, memory_pool.caps := MALLOC_CAP_INTERNAL,
        memory_pool.pool_id := 1, pool_memory := 0x3FFB0000, usage_bitmap := 0x3FFC0000,
        free_list := 0x3FFB0058, mutex := True\<rparr>,
     boot_machine\<lparr>heap_calls := [Malloc 176 MALLOC_CAP_INTERNAL, Calloc 1 1 MALLOC_CAP_INTERNAL],
        memory :=
          set_next 0x3FFB0058 0x3FFB0000 (set_pool_id 0x3FFB0058 1 (set_magic 0x3FFB0058 POOL_MAGIC_FREE
            (set_next 0x3FFB0000 NULL (set_pool_id 0x3FFB0000 1 (set_magic 0x3FFB0000 POOL_MAGIC_FREE
              (\<lambda>_. 0)))))),
        log := [LogPoolReady ''Small'' 2 64]\<rparr>)"
  by (simp add: small_pool_ready_def init_memory_pool_def three_classes_def boot_machine_def
      zeroed_pool_def init_block_def Let_def sizeof_memory_block_def upt_0_2)

text \<open>
  Rules that evaluate a load from memory given as a sequence of stores at known addresses.
\<close>

lemmas eval_memory =
  block_next_def block_magic_def block_pool_id_def block_alloc_time_def
  set_next_def set_magic_def set_pool_id_def set_alloc_time_def
  load64_def store64_def load32_store32_same load32_store32_far load32_zero

lemmas eval_small_pool =
  run_ops_Cons run_ops_Nil small_pool_ready_eval pool_malloc_def pool_free_def
  pool_free_accepts_def Let_def zeroed_pool_def boot_machine_def sizeof_memory_block_def
  eval_memory POOL_MAGIC_FREE_def POOL_MAGIC_ALLOC_def

lemma small_pool_init:
  "init_memory_pool 0x3FFB0000 0x3FFC0000 True (three_classes ! 0) 1 boot_machine
     = (True, fst small_pool_ready, snd small_pool_ready)"
proof -
  have "fst (init_memory_pool 0x3FFB0000 0x3FFC0000 True (three_classes ! 0) 1 boot_machine) = True"
    by (rule init_memory_pool_succeeds) simp_all
  then show ?thesis
    unfolding small_pool_ready_def by (rule triple_collapse)
qed

lemma small_pool_fits:
  shows "buffer_fits 0x3FFB0000 (three_classes ! 0)" and "stride_holds_header (three_classes ! 0)"
  by (simp_all add: buffer_fits_def stride_holds_header_def pool_stride_def three_classes_def
      sizeof_memory_block_def)

lemma small_pool_blocks: "pool_blocks 0x3FFB0000 (three_classes ! 0) = {0x3FFB0000, 0x3FFB0058}"
proof -
  have "{..<2::nat} = {0, 1}" by auto
  then show ?thesis
    by (simp add: pool_blocks_def block_at_def pool_stride_def three_classes_def
        sizeof_memory_block_def insert_commute)
qed

subsection \<open>The counters of a pool\<close>

text \<open>
  Claim C4 as written fails on the code.  The check of \<open>pool_free\<close> reads the tag and the
  pool id at \<open>ptr - 24 + 4\<close> and \<open>ptr - 24 + 8\<close>, wherever that is.  A block of the
  64-byte pool with id 1 is allocated when the timer reads \<open>0x1CAFEBABE\<close>; the block starts
  at \<open>0x3FFB0058\<close> and the pointer returned is \<open>0x3FFB0070\<close>.  The two words of the
  time stamp, at offsets 16 and 20 of the header, are then \<open>0xCAFEBABE\<close>, the allocated
  tag, and 1, the pool id.  A release of the pointer 12 bytes further up, \<open>0x3FFB007C\<close>,
  takes these two words for the tag and the id of a header at \<open>0x3FFB0064\<close>, passes the
  check and is counted; the release of \<open>0x3FFB0070\<close> that follows is counted too.  After one
  allocation and two releases \<open>allocated_blocks\<close> has wrapped below zero to
  \<open>0xFFFFFFFF\<close> and exceeds the block count 2.  No header was written by anything but
  the pool's own functions.
\<close>

theorem pool_counters_forged_release_counterexample:
  "fst (pool_malloc True 0x1CAFEBABE (fst small_pool_ready) (snd small_pool_ready)) = 0x3FFB0070 \<and>
   pool_free_accepts True (fst (run_ops [Allocate True 0x1CAFEBABE] small_pool_ready)) 0x3FFB007C
     (snd (run_ops [Allocate True 0x1CAFEBABE] small_pool_ready)) \<and>
   allocated_blocks (fst (run_ops
     [Allocate True 0x1CAFEBABE, Release True 0x3FFB007C, Release True 0x3FFB0070]
     small_pool_ready)) = 0xFFFFFFFF \<and>
   memory_pool.block_count (fst (run_ops
     [Allocate True 0x1CAFEBABE, Release True 0x3FFB007C, Release True 0x3FFB0070]
     small_pool_ready)) = 2 \<and>
   \<not> allocated_blocks (fst (run_ops
     [Allocate True 0x1CAFEBABE, Release True 0x3FFB007C, Release True 0x3FFB0070]
     small_pool_ready))
     \<le> memory_pool.block_count (fst (run_ops
     [Allocate True 0x1CAFEBABE, Release True 0x3FFB007C, Release True 0x3FFB0070]
     small_pool_ready))"
proof -
  let ?st = "run_ops [Allocate True 0x1CAFEBABE, Release True 0x3FFB007C, Release True 0x3FFB0070]
     small_pool_ready"
  have run: "fst (pool_malloc True 0x1CAFEBABE (fst small_pool_ready) (snd small_pool_ready)) = 0x3FFB0070 \<and>
   pool_free_accepts True (fst (run_ops [Allocate True 0x1CAFEBABE] small_pool_ready)) 0x3FFB007C
     (snd (run_ops [Allocate True 0x1CAFEBABE] small_pool_ready)) \<and>
   allocated_blocks (fst ?st) = 0xFFFFFFFF \<and> memory_pool.block_count (fst ?st) = 2"
    by (simp add: eval_small_pool)
  then have "allocated_blocks (fst ?st) = 0xFFFFFFFF" and "memory_pool.block_count (fst ?st) = 2"
    by blast+
  then have "\<not> allocated_blocks (fst ?st) \<le> memory_pool.block_count (fst ?st)"
    by (simp add: word_le_nat_alt)
  then show ?thesis using run by blast
qed

text \<open>
  Claim C4, amended.  Take a pool that \<open>init_memory_pool\<close> has just set up in a buffer
  lying inside the address space, with a stride that holds a header, and a sequence of
  allocate and release calls, with any pointers and whether or not each call obtains the
  mutex, in which every release that passes the header check of \<open>pool_free\<close> is given the
  payload pointer of one of the pool's blocks.  After the sequence \<open>allocated_blocks\<close>
  equals \<open>total_allocations - total_deallocations\<close> and lies between 0 and
  \<open>block_count\<close>, which is still the configured count.  Releases that fail the check,
  such as a second release of the same pointer, are covered; what is excluded is a release
  that passes the check on bytes that are not the header of a block.
\<close>

theorem pool_counters_invariant:
  assumes init: "init_memory_pool mem bitmap mtx config pid m0 = (True, pool, m)"
    and fits: "buffer_fits mem config"
    and stride: "stride_holds_header config"
    and rel: "releases_in_pool (pool_blocks mem config) ops (pool, m)"
    and run: "run_ops ops (pool, m) = (pool', m')"
  shows "ucast (allocated_blocks pool') =
           memory_pool.total_allocations pool' - memory_pool.total_deallocations pool'
         \<and> 0 \<le> allocated_blocks pool'
         \<and> allocated_blocks pool' \<le> memory_pool.block_count pool'
         \<and> memory_pool.block_count pool' = pool_config.block_count config"
proof -
  let ?B = "pool_blocks mem config"
  note inv0 = init_memory_pool_inv [OF init fits stride]
  have "\<exists>fl. free_list_inv ?B fl (fst (pool, m)) (snd (pool, m))"
    using inv0 by auto
  then have "\<exists>fl. free_list_inv ?B fl (fst (run_ops ops (pool, m))) (snd (run_ops ops (pool, m)))"
    using rel by (rule run_ops_inv)
  then obtain fl where inv: "free_list_inv ?B fl pool' m'"
    using run by auto
  have "card ?B = unat (pool_config.block_count config)"
    using inv0 init_memory_pool_ok(2) [OF init] by (simp add: free_list_inv_def)
  moreover have "card ?B = unat (memory_pool.block_count pool')"
    using inv by (simp add: free_list_inv_def)
  ultimately have "unat (memory_pool.block_count pool') = unat (pool_config.block_count config)"
    by simp
  then have "memory_pool.block_count pool' = pool_config.block_count config"
    by (simp add: word_unat_eq_iff)
  then show ?thesis
    using free_list_inv_counters [OF inv] by simp
qed

theorem pool_counters_invariant_witness:
  "buffer_fits 0x3FFB0000 (three_classes ! 0) \<and> stride_holds_header (three_classes ! 0) \<and>
   fst (init_memory_pool 0x3FFB0000 0x3FFC0000 True (three_classes ! 0) 1 boot_machine) \<and>
   releases_in_pool (pool_blocks 0x3FFB0000 (three_classes ! 0))
     [Allocate True 7, Release True 0x3FFB0070, Release True 0x3FFB0070, Allocate False 9,
      Release True 0x3FFB007C] small_pool_ready \<and>
   (let st = run_ops
      [Allocate True 7, Release True 0x3FFB0070, Release True 0x3FFB0070, Allocate False 9,
       Release True 0x3FFB007C] small_pool_ready
    in ucast (allocated_blocks (fst st)) =
         memory_pool.total_allocations (fst st) - memory_pool.total_deallocations (fst st) \<and>
       allocated_blocks (fst st) \<le> memory_pool.block_count (fst st) \<and>
       memory_pool.block_count (fst st) = 2)"
proof -
  let ?ops = "[Allocate True 7, Release True 0x3FFB0070, Release True 0x3FFB0070, Allocate False 9,
      Release True 0x3FFB007C]"
  let ?st = "run_ops ?ops small_pool_ready"
  have rel: "releases_in_pool (pool_blocks 0x3FFB0000 (three_classes ! 0)) ?ops small_pool_ready"
    unfolding small_pool_blocks
    by (simp add: eval_small_pool)
  have rel': "releases_in_pool (pool_blocks 0x3FFB0000 (three_classes ! 0)) ?ops
                (fst small_pool_ready, snd small_pool_ready)"
    using rel by simp
  have run: "run_ops ?ops (fst small_pool_ready, snd small_pool_ready) = (fst ?st, snd ?st)"
    by simp
  have bc: "pool_config.block_count (three_classes ! 0) = 2"
    by (simp add: three_classes_def)
  have ok: "fst (init_memory_pool 0x3FFB0000 0x3FFC0000 True (three_classes ! 0) 1 boot_machine)"
    by (simp add: small_pool_init)
  note t = pool_counters_invariant [OF small_pool_init small_pool_fits(1) small_pool_fits(2) rel' run]
  have a: "ucast (allocated_blocks (fst ?st)) =
         memory_pool.total_allocations (fst ?st) - memory_pool.total_deallocations (fst ?st)"
    using t by blast
  have b: "allocated_blocks (fst ?st) \<le> memory_pool.block_count (fst ?st)"
    using t by blast
  have c: "memory_pool.block_count (fst ?st) = 2"
    using t unfolding bc by blast
  show ?thesis
    unfolding Let_def
    using a b c small_pool_fits rel ok by blast
qed

subsection \<open>Exhaustion\<close>

lemma rev_blocks_Suc:
  "rev (map f [0 ..< Suc k]) = f k # rev (map f [0 ..< k])"
  by simp

lemma pool_malloc_pops_descending:
  assumes fits: "buffer_fits mem config" and inside: "headers_inside mem config"
    and k: "k < unat (pool_config.block_count config)"
    and c: "chain (memory m) (free_list pool) (rev (map (block_at mem config) [0 ..< Suc k]))"
    and served: "mutex pool" "taken"
    and res: "pool_malloc taken now pool m = (p, pool', m')"
  shows "chain (memory m') (free_list pool') (rev (map (block_at mem config) [0 ..< k]))"
    and "memory_pool.allocation_failures pool' = memory_pool.allocation_failures pool"
    and "mutex pool' = mutex pool"
proof -
  let ?b = "block_at mem config k"
  define ram where "ram = memory m"
  define ram' where "ram' = set_alloc_time ?b now (set_magic ?b POOL_MAGIC_ALLOC ram)"
  have head: "free_list pool = ?b" and nn: "?b \<noteq> NULL"
    and rest: "chain ram (block_next ram ?b) (rev (map (block_at mem config) [0 ..< k]))"
    using c unfolding rev_blocks_Suc ram_def by simp_all
  have pool': "pool' = pool\<lparr>free_list := block_next ram ?b,
          allocated_blocks := allocated_blocks pool + 1,
          memory_pool.total_allocations := memory_pool.total_allocations pool + 1\<rparr>"
    and m': "m' = m\<lparr>memory := ram'\<rparr>"
    using res pool_malloc_served [OF served, of now m] nn head
    unfolding ram_def ram'_def by simp_all
  have "chain ram' (block_next ram ?b) (rev (map (block_at mem config) [0 ..< k]))
          = chain ram (block_next ram ?b) (rev (map (block_at mem config) [0 ..< k]))"
  proof (rule chain_cong)
    fix b x
    assume "b \<in> set (rev (map (block_at mem config) [0 ..< k]))" and x: "x \<in> span b 4"
    then obtain i where i: "i < k" and b: "b = block_at mem config i" by auto
    have "x \<notin> span ?b 24"
      using lower_next_untouched [OF fits inside i k] x b by simp
    then show "ram' x = ram x"
      unfolding ram'_def by (rule malloc_writes_outside)
  qed
  then show "chain (memory m') (free_list pool') (rev (map (block_at mem config) [0 ..< k]))"
    using rest by (simp add: pool' m')
  show "memory_pool.allocation_failures pool' = memory_pool.allocation_failures pool"
    by (simp add: pool')
  show "mutex pool' = mutex pool"
    by (simp add: pool')
qed

lemma pool_mallocs_all_served:
  assumes fits: "buffer_fits mem config" and inside: "headers_inside mem config"
    and "n \<le> unat (pool_config.block_count config)"
    and "chain (memory m) (free_list pool) (rev (map (block_at mem config) [0 ..< n]))"
    and "pool_mallocs envs (pool, m) = (ps, pool', m')"
    and "\<forall>p\<in>set ps. p \<noteq> NULL"
  shows "length envs \<le> n \<and>
         chain (memory m') (free_list pool') (rev (map (block_at mem config) [0 ..< n - length envs])) \<and>
         memory_pool.allocation_failures pool' = memory_pool.allocation_failures pool \<and>
         mutex pool' = mutex pool"
  using assms(3-)
proof (induction envs arbitrary: pool m n ps)
  case Nil
  then show ?case by auto
next
  case (Cons env envs)
  obtain taken now where env: "env = (taken, now)" by (cases env)
  obtain p pool1 m1 where one: "pool_malloc taken now pool m = (p, pool1, m1)"
    by (cases "pool_malloc taken now pool m")
  obtain qs where rest: "pool_mallocs envs (pool1, m1) = (qs, pool', m')" and ps: "ps = p # qs"
    using Cons.prems(3) by (auto simp: env one split: prod.splits)
  have p: "p \<noteq> NULL" and qs: "\<forall>q\<in>set qs. q \<noteq> NULL"
    using Cons.prems(4) ps by simp_all
  have served: "mutex pool" "taken" "free_list pool \<noteq> NULL"
    using p one pool_malloc_not_served [of pool taken now m] by auto
  have "n \<noteq> 0"
    using Cons.prems(2) served(3) by (cases n) auto
  then obtain k where n: "n = Suc k" by (cases n) auto
  have k: "k < unat (pool_config.block_count config)" and k': "k \<le> unat (pool_config.block_count config)"
    using Cons.prems(1) n by simp_all
  have c: "chain (memory m) (free_list pool) (rev (map (block_at mem config) [0 ..< Suc k]))"
    using Cons.prems(2) n by simp
  note step = pool_malloc_pops_descending [OF fits inside k c served(1,2) one]
  have "length envs \<le> k \<and>
         chain (memory m') (free_list pool') (rev (map (block_at mem config) [0 ..< k - length envs])) \<and>
         memory_pool.allocation_failures pool' = memory_pool.allocation_failures pool1 \<and>
         mutex pool' = mutex pool1"
    by (rule Cons.IH [OF k' step(1) rest qs])
  then show ?case using step(2,3) n by simp
qed

text \<open>
  Claim C5.  A pool is set up by \<open>init_memory_pool\<close> with \<open>block_count = K\<close> and a mutex,
  in a buffer inside the address space in which every block's header ends inside the address
  space, and \<open>K\<close> calls of \<open>pool_malloc\<close> in a row have each returned a block.  Then the
  free list is empty and \<open>allocation_failures\<close> is still 0, and the next call that obtains
  the mutex returns the null pointer at once, changes nothing in the pool but
  \<open>allocation_failures\<close>, which becomes 1, and leaves memory as it is (it only raises the
  pool-full LED).  The stride may have wrapped: headers that share bytes do not disturb a run
  of allocations.
\<close>

theorem pool_exhausted_after_block_count:
  assumes init: "init_memory_pool mem bitmap True config pid m0 = (True, pool0, m1)"
    and fits: "buffer_fits mem config"
    and inside: "headers_inside mem config"
    and K: "length envs = unat (pool_config.block_count config)"
    and run: "pool_mallocs envs (pool0, m1) = (ps, pool, m)"
    and ok: "\<forall>p\<in>set ps. p \<noteq> NULL"
  shows "memory_pool.allocation_failures pool = 0 \<and> free_list pool = NULL \<and>
         pool_malloc True now pool m =
           (NULL, pool\<lparr>memory_pool.allocation_failures := 1\<rparr>,
            m\<lparr>gpio := (gpio m)(LED_POOL_FULL := True)\<rparr>)"
proof -
  note c0 = init_memory_pool_chain [OF init fits inside]
  have "length envs \<le> unat (pool_config.block_count config) \<and>
         chain (memory m) (free_list pool)
           (rev (map (block_at mem config) [0 ..< unat (pool_config.block_count config) - length envs])) \<and>
         memory_pool.allocation_failures pool = memory_pool.allocation_failures pool0 \<and>
         mutex pool = mutex pool0"
    by (rule pool_mallocs_all_served [OF fits inside order_refl c0 run ok])
  then have c: "chain (memory m) (free_list pool) []"
    and fails: "memory_pool.allocation_failures pool = memory_pool.allocation_failures pool0"
    and mtx: "mutex pool = mutex pool0"
    using K by simp_all
  have empty: "free_list pool = NULL"
    using c by simp
  have f0: "memory_pool.allocation_failures pool = 0"
    using fails init_memory_pool_ok(6) [OF init] by simp
  have m: "mutex pool"
    using mtx init_memory_pool_ok(8) [OF init] by simp
  have "pool_malloc True now pool m =
           (NULL, pool\<lparr>memory_pool.allocation_failures := 1\<rparr>,
            m\<lparr>gpio := (gpio m)(LED_POOL_FULL := True)\<rparr>)"
    using pool_malloc_not_served [of pool True now m] empty f0 m by simp
  then show ?thesis using f0 empty by blast
qed

lemma small2_run:
  "fst (pool_mallocs [(True, 10), (True, 20)]
     (snd (init_memory_pool 0x3FFB0000 0x3FFC0000 True (three_classes ! 0) 1 boot_machine)))
   = [0x3FFB0070, 0x3FFB0018]"
  unfolding small_pool_ready_def [symmetric]
  by (simp add: small_pool_ready_eval pool_malloc_def Let_def zeroed_pool_def boot_machine_def
      sizeof_memory_block_def eval_memory split_def)

theorem pool_exhausted_after_block_count_witness:
  "buffer_fits 0x3FFB0000 (three_classes ! 0) \<and> headers_inside 0x3FFB0000 (three_classes ! 0) \<and>
   (let init = init_memory_pool 0x3FFB0000 0x3FFC0000 True (three_classes ! 0) 1 boot_machine;
        run = pool_mallocs [(True, 10), (True, 20)] (snd init);
        third = pool_malloc True 30 (fst (snd run)) (snd (snd run))
    in fst init \<and> fst run = [0x3FFB0070, 0x3FFB0018] \<and>
       memory_pool.allocation_failures (fst (snd run)) = 0 \<and>
       fst third = NULL \<and>
       fst (snd third) = (fst (snd run))\<lparr>memory_pool.allocation_failures := 1\<rparr>)"
proof -
  let ?init = "init_memory_pool 0x3FFB0000 0x3FFC0000 True (three_classes ! 0) 1 boot_machine"
  let ?envs = "[(True, 10), (True, 20)] :: (bool \<times> uint64_t) list"
  let ?run = "pool_mallocs ?envs (snd ?init)"
  have ok: "fst ?init = True"
    by (rule init_memory_pool_succeeds) simp_all
  have init: "?init = (True, fst (snd ?init), snd (snd ?init))"
    by (rule triple_collapse [OF ok])
  have fits: "buffer_fits 0x3FFB0000 (three_classes ! 0)"
    by (rule small_pool_fits(1))
  have inside: "headers_inside 0x3FFB0000 (three_classes ! 0)"
    by (rule stride_headers_inside [OF small_pool_fits(1) small_pool_fits(2)])
  have K: "length ?envs = unat (pool_config.block_count (three_classes ! 0))"
    by (simp add: three_classes_def)
  have run: "pool_mallocs ?envs (fst (snd ?init), snd (snd ?init)) =
               (fst ?run, fst (snd ?run), snd (snd ?run))"
    by (simp only: prod.collapse)
  have ptrs: "fst ?run = [0x3FFB0070, 0x3FFB0018]"
    by (rule small2_run)
  have served: "\<forall>p\<in>set (fst ?run). p \<noteq> NULL"
    unfolding ptrs by simp
  show ?thesis
    unfolding Let_def
    using pool_exhausted_after_block_count [OF init fits inside K run served, of 30] fits inside ok ptrs
    by simp
qed

subsection \<open>Fields the pool functions never write\<close>

lemma pool_malloc_peak:
  "memory_pool.peak_usage (fst (snd (pool_malloc taken now pool m))) = memory_pool.peak_usage pool"
  by (simp add: pool_malloc_def Let_def)

lemma pool_free_peak:
  "memory_pool.peak_usage (fst (snd (pool_free taken pool p m))) = memory_pool.peak_usage pool"
  by (simp add: pool_free_def Let_def)

lemma pool_step_peak:
  "memory_pool.peak_usage (fst (pool_step op st)) = memory_pool.peak_usage (fst st)"
  by (cases op; cases st) (simp_all add: pool_malloc_peak pool_free_peak)

lemma run_ops_peak:
  "memory_pool.peak_usage (fst (run_ops ops st)) = memory_pool.peak_usage (fst st)"
  by (induction ops arbitrary: st) (simp_all add: run_ops_Nil run_ops_Cons pool_step_peak)

lemma init_memory_pool_peak:
  "memory_pool.peak_usage (fst (snd (init_memory_pool mem bitmap mtx config pid m0))) = 0"
  by (simp add: init_memory_pool_def Let_def zeroed_pool_def split_def)

lemma pool_free_returns_true:
  "p \<noteq> NULL \<Longrightarrow> mutex pool \<Longrightarrow> fst (pool_free taken pool p m) = True"
  by (simp add: pool_free_def Let_def)

subsection \<open>Reuse order\<close>

lemma block_of_payload: "p - sizeof_memory_block + sizeof_memory_block = p"
  by simp

lemma block_not_NULL: "p \<noteq> sizeof_memory_block \<Longrightarrow> p - sizeof_memory_block \<noteq> NULL"
  by simp

lemma lifo_push_pop:
  assumes acc: "pool_free_accepts True pool p m" and nz: "p \<noteq> sizeof_memory_block"
  shows "case pool_free True pool p m of (ok, pool1, m1) \<Rightarrow>
           ok \<and> free_list pool1 = p - sizeof_memory_block
           \<and> block_next (memory m1) (p - sizeof_memory_block) = free_list pool
           \<and> block_magic (memory m1) (p - sizeof_memory_block) = POOL_MAGIC_FREE
           \<and> allocated_blocks pool1 = allocated_blocks pool - 1
           \<and> memory_pool.total_deallocations pool1 = memory_pool.total_deallocations pool + 1
           \<and> memory_pool.total_allocations pool1 = memory_pool.total_allocations pool
           \<and> (chain (memory m) (free_list pool) fl \<and> (\<forall>x\<in>set fl. apart (p - sizeof_memory_block) x)
                \<longrightarrow> chain (memory m1) (free_list pool1) ((p - sizeof_memory_block) # fl))
           \<and> (case pool_malloc True now pool1 m1 of (q, pool2, m2) \<Rightarrow>
                q = p \<and> free_list pool2 = free_list pool
                \<and> block_magic (memory m2) (p - sizeof_memory_block) = POOL_MAGIC_ALLOC
                \<and> block_alloc_time (memory m2) (p - sizeof_memory_block) = now
                \<and> allocated_blocks pool2 = allocated_blocks pool
                \<and> memory_pool.total_allocations pool2 = memory_pool.total_allocations pool + 1
                \<and> memory_pool.total_deallocations pool2 = memory_pool.total_deallocations pool + 1
                \<and> (chain (memory m) (free_list pool) fl
                      \<and> (\<forall>x\<in>set fl. apart (p - sizeof_memory_block) x)
                     \<longrightarrow> chain (memory m2) (free_list pool2) fl))"
proof -
  define b where "b = p - sizeof_memory_block"
  define ram where "ram = memory m"
  define ram1 where "ram1 = set_next b (free_list pool) (set_magic b POOL_MAGIC_FREE ram)"
  define ram2 where "ram2 = set_alloc_time b now (set_magic b POOL_MAGIC_ALLOC ram1)"
  define pool1 where "pool1 = pool\<lparr>free_list := b,
          allocated_blocks := allocated_blocks pool - 1,
          memory_pool.total_deallocations := memory_pool.total_deallocations pool + 1\<rparr>"
  define pool2 where "pool2 = pool1\<lparr>free_list := block_next ram1 b,
          allocated_blocks := allocated_blocks pool1 + 1,
          memory_pool.total_allocations := memory_pool.total_allocations pool1 + 1\<rparr>"
  have pf: "pool_free True pool p m = (True, pool1, m\<lparr>memory := ram1\<rparr>)"
    using pool_free_pushed [OF acc] unfolding b_def ram_def ram1_def pool1_def by simp
  have bn: "b \<noteq> NULL"
    using nz unfolding b_def by (rule block_not_NULL)
  have bp: "b + sizeof_memory_block = p"
    unfolding b_def by (rule block_of_payload)
  have mtx: "mutex pool1"
    using acc by (simp add: pool1_def pool_free_accepts_def)
  have hd1: "free_list pool1 = b" by (simp add: pool1_def)
  have pm: "pool_malloc True now pool1 (m\<lparr>memory := ram1\<rparr>) = (p, pool2, m\<lparr>memory := ram2\<rparr>)"
    using pool_malloc_served [of pool1 True now "m\<lparr>memory := ram1\<rparr>"] mtx bn
    by (simp add: hd1 bp pool2_def ram2_def)
  have next1: "block_next ram1 b = free_list pool"
    by (simp add: ram1_def same_block_fields)
  have magic1: "block_magic ram1 b = POOL_MAGIC_FREE"
    by (simp add: ram1_def same_block_fields)
  have magic2: "block_magic ram2 b = POOL_MAGIC_ALLOC"
    by (simp add: ram2_def same_block_fields)
  have time2: "block_alloc_time ram2 b = now"
    by (simp add: ram2_def same_block_fields)
  have hd2: "free_list pool2 = free_list pool"
    by (simp add: pool2_def next1)
  have count2: "allocated_blocks pool2 = allocated_blocks pool"
    by (simp add: pool2_def pool1_def)
  have ch1: "chain ram1 (free_list pool) fl" and ch2: "chain ram2 (free_list pool) fl"
    if c: "chain ram (free_list pool) fl" and ap: "\<forall>x\<in>set fl. apart b x"
  proof -
    have "chain ram1 (free_list pool) fl = chain ram (free_list pool) fl"
      using ap unfolding ram1_def
      by (intro chain_other_blocks [where b = b] free_writes_outside) simp_all
    then show 1: "chain ram1 (free_list pool) fl" using c by simp
    have "chain ram2 (free_list pool) fl = chain ram1 (free_list pool) fl"
      using ap unfolding ram2_def
      by (intro chain_other_blocks [where b = b] malloc_writes_outside) simp_all
    then show "chain ram2 (free_list pool) fl" using 1 by simp
  qed
  have push: "chain ram (free_list pool) fl \<and> (\<forall>x\<in>set fl. apart b x)
                \<longrightarrow> chain ram1 (free_list pool1) (b # fl)"
    using ch1 bn by (simp add: hd1 next1)
  have pop: "chain ram (free_list pool) fl \<and> (\<forall>x\<in>set fl. apart b x)
                \<longrightarrow> chain ram2 (free_list pool2) fl"
    using ch2 by (simp add: hd2)
  show ?thesis
    unfolding pf prod.case pm b_def [symmetric] ram_def [symmetric]
    using hd1 next1 magic1 magic2 time2 hd2 count2 push pop
    by (simp add: pool1_def pool2_def)
qed

lemma lifo_round_trip:
  assumes res: "pool_malloc True now1 pool0 m0 = (p0, pool1, m1)"
    and p0: "p0 \<noteq> NULL"
    and pid: "block_pool_id (memory m0) (free_list pool0) = memory_pool.pool_id pool0"
  shows "p0 = free_list pool0 + sizeof_memory_block \<and>
         block_magic (memory m1) (free_list pool0) = POOL_MAGIC_ALLOC \<and>
         free_list pool1 = block_next (memory m0) (free_list pool0) \<and>
         (case pool_free True pool1 p0 m1 of (ok, pool2, m2) \<Rightarrow>
            ok \<and> free_list pool2 = free_list pool0
            \<and> block_magic (memory m2) (free_list pool0) = POOL_MAGIC_FREE
            \<and> allocated_blocks pool2 = allocated_blocks pool0
            \<and> (case pool_malloc True now2 pool2 m2 of (q, pool3, m3) \<Rightarrow>
                 q = p0 \<and> block_magic (memory m3) (p0 - sizeof_memory_block) = POOL_MAGIC_ALLOC
                 \<and> block_alloc_time (memory m3) (p0 - sizeof_memory_block) = now2
                 \<and> free_list pool3 = free_list pool1
                 \<and> allocated_blocks pool3 = allocated_blocks pool1))"
proof -
  define b where "b = free_list pool0"
  have served: "mutex pool0" "True" "free_list pool0 \<noteq> NULL"
    using p0 res pool_malloc_not_served [of pool0 True now1 m0] by auto
  note r = pool_malloc_served [OF served, of now1 m0]
  have p0_eq: "p0 = b + sizeof_memory_block"
    and pool1: "pool1 = pool0\<lparr>free_list := block_next (memory m0) b,
          allocated_blocks := allocated_blocks pool0 + 1,
          memory_pool.total_allocations := memory_pool.total_allocations pool0 + 1\<rparr>"
    and m1: "m1 = m0\<lparr>memory := set_alloc_time b now1 (set_magic b POOL_MAGIC_ALLOC (memory m0))\<rparr>"
    using res r unfolding b_def by simp_all
  have blk: "p0 - sizeof_memory_block = b"
    by (simp add: p0_eq)
  have nz: "p0 \<noteq> sizeof_memory_block"
    using served(3) by (simp add: p0_eq b_def)
  have magic1: "block_magic (memory m1) b = POOL_MAGIC_ALLOC"
    by (simp add: m1 same_block_fields)
  have pid1: "block_pool_id (memory m1) b = memory_pool.pool_id pool1"
    using pid by (simp add: m1 pool1 same_block_fields b_def)
  have acc: "pool_free_accepts True pool1 p0 m1"
    using p0 served(1) magic1 pid1 by (simp add: pool_free_accepts_def blk pool1)
  note l = lifo_push_pop [OF acc nz, where now = now2 and fl = "[]", unfolded blk]
  show ?thesis
    using l magic1 unfolding b_def [symmetric] blk
    by (auto simp add: p0_eq pool1 split: prod.splits)
qed

text \<open>
  Claim C6.  The free list is a stack.  First part, in any pool state: a release that
  \<open>pool_free\<close> accepts, of a pointer whose block is not at the null address, succeeds, tags
  the block free, links it in front of the old head and makes it the head of the free list,
  counting one release; the next allocate returns the pointer just released, leaves the old
  head as the head again, tags the block allocated with the new time stamp and counts one
  allocation.  When the free list was the chain \<open>fl\<close> of blocks whose headers are apart from
  the released block, it is the chain of the block followed by \<open>fl\<close> after the release and
  the chain \<open>fl\<close> again after the allocation.  Second part, the round trip: when allocate
  returns \<open>p0\<close> from a pool whose head block carries the pool's id, release of \<open>p0\<close>
  succeeds and puts the block back at the head, and the next allocate returns \<open>p0\<close> again
  with the header tagged allocated and the pool as it was after the first allocate.  Third
  part: a release that \<open>pool_free\<close> does not accept pushes nothing.
\<close>

theorem pool_lifo_reuse:
  "(pool_free_accepts True pool p m \<and> p \<noteq> sizeof_memory_block \<longrightarrow>
      (case pool_free True pool p m of (ok, pool1, m1) \<Rightarrow>
           ok \<and> free_list pool1 = p - sizeof_memory_block
           \<and> block_next (memory m1) (p - sizeof_memory_block) = free_list pool
           \<and> block_magic (memory m1) (p - sizeof_memory_block) = POOL_MAGIC_FREE
           \<and> allocated_blocks pool1 = allocated_blocks pool - 1
           \<and> memory_pool.total_deallocations pool1 = memory_pool.total_deallocations pool + 1
           \<and> memory_pool.total_allocations pool1 = memory_pool.total_allocations pool
           \<and> (chain (memory m) (free_list pool) fl \<and> (\<forall>x\<in>set fl. apart (p - sizeof_memory_block) x)
                \<longrightarrow> chain (memory m1) (free_list pool1) ((p - sizeof_memory_block) # fl))
           \<and> (case pool_malloc True now pool1 m1 of (q, pool2, m2) \<Rightarrow>
                q = p \<and> free_list pool2 = free_list pool
                \<and> block_magic (memory m2) (p - sizeof_memory_block) = POOL_MAGIC_ALLOC
                \<and> block_alloc_time (memory m2) (p - sizeof_memory_block) = now
                \<and> allocated_blocks pool2 = allocated_blocks pool
                \<and> memory_pool.total_allocations pool2 = memory_pool.total_allocations pool + 1
                \<and> memory_pool.total_deallocations pool2 = memory_pool.total_deallocations pool + 1
                \<and> (chain (memory m) (free_list pool) fl
                      \<and> (\<forall>x\<in>set fl. apart (p - sizeof_memory_block) x)
                     \<longrightarrow> chain (memory m2) (free_list pool2) fl))))
   \<and> (case pool_malloc True now1 pool0 m0 of (p0, pool1, m1) \<Rightarrow>
         p0 \<noteq> NULL
         \<and> block_pool_id (memory m0) (free_list pool0) = memory_pool.pool_id pool0
       \<longrightarrow> p0 = free_list pool0 + sizeof_memory_block \<and>
           block_magic (memory m1) (free_list pool0) = POOL_MAGIC_ALLOC \<and>
           free_list pool1 = block_next (memory m0) (free_list pool0) \<and>
           (case pool_free True pool1 p0 m1 of (ok, pool2, m2) \<Rightarrow>
              ok \<and> free_list pool2 = free_list pool0
              \<and> block_magic (memory m2) (free_list pool0) = POOL_MAGIC_FREE
              \<and> allocated_blocks pool2 = allocated_blocks pool0
              \<and> (case pool_malloc True now2 pool2 m2 of (q, pool3, m3) \<Rightarrow>
                   q = p0 \<and> block_magic (memory m3) (p0 - sizeof_memory_block) = POOL_MAGIC_ALLOC
                   \<and> block_alloc_time (memory m3) (p0 - sizeof_memory_block) = now2
                   \<and> free_list pool3 = free_list pool1
                   \<and> allocated_blocks pool3 = allocated_blocks pool1)))
   \<and> (\<not> pool_free_accepts taken' pool' p' m' \<longrightarrow>
         fst (snd (pool_free taken' pool' p' m')) = pool' \<and>
         memory (snd (snd (pool_free taken' pool' p' m'))) = memory m')"
proof (intro conjI)
  show "pool_free_accepts True pool p m \<and> p \<noteq> sizeof_memory_block \<longrightarrow>
      (case pool_free True pool p m of (ok, pool1, m1) \<Rightarrow>
           ok \<and> free_list pool1 = p - sizeof_memory_block
           \<and> block_next (memory m1) (p - sizeof_memory_block) = free_list pool
           \<and> block_magic (memory m1) (p - sizeof_memory_block) = POOL_MAGIC_FREE
           \<and> allocated_blocks pool1 = allocated_blocks pool - 1
           \<and> memory_pool.total_deallocations pool1 = memory_pool.total_deallocations pool + 1
           \<and> memory_pool.total_allocations pool1 = memory_pool.total_allocations pool
           \<and> (chain (memory m) (free_list pool) fl \<and> (\<forall>x\<in>set fl. apart (p - sizeof_memory_block) x)
                \<longrightarrow> chain (memory m1) (free_list pool1) ((p - sizeof_memory_block) # fl))
           \<and> (case pool_malloc True now pool1 m1 of (q, pool2, m2) \<Rightarrow>
                q = p \<and> free_list pool2 = free_list pool
                \<and> block_magic (memory m2) (p - sizeof_memory_block) = POOL_MAGIC_ALLOC
                \<and> block_alloc_time (memory m2) (p - sizeof_memory_block) = now
                \<and> allocated_blocks pool2 = allocated_blocks pool
                \<and> memory_pool.total_allocations pool2 = memory_pool.total_allocations pool + 1
                \<and> memory_pool.total_deallocations pool2 = memory_pool.total_deallocations pool + 1
                \<and> (chain (memory m) (free_list pool) fl
                      \<and> (\<forall>x\<in>set fl. apart (p - sizeof_memory_block) x)
                     \<longrightarrow> chain (memory m2) (free_list pool2) fl)))"
    by (intro impI, elim conjE, rule lifo_push_pop, assumption+)
next
  show "case pool_malloc True now1 pool0 m0 of (p0, pool1, m1) \<Rightarrow>
         p0 \<noteq> NULL
         \<and> block_pool_id (memory m0) (free_list pool0) = memory_pool.pool_id pool0
       \<longrightarrow> p0 = free_list pool0 + sizeof_memory_block \<and>
           block_magic (memory m1) (free_list pool0) = POOL_MAGIC_ALLOC \<and>
           free_list pool1 = block_next (memory m0) (free_list pool0) \<and>
           (case pool_free True pool1 p0 m1 of (ok, pool2, m2) \<Rightarrow>
              ok \<and> free_list pool2 = free_list pool0
              \<and> block_magic (memory m2) (free_list pool0) = POOL_MAGIC_FREE
              \<and> allocated_blocks pool2 = allocated_blocks pool0
              \<and> (case pool_malloc True now2 pool2 m2 of (q, pool3, m3) \<Rightarrow>
                   q = p0 \<and> block_magic (memory m3) (p0 - sizeof_memory_block) = POOL_MAGIC_ALLOC
                   \<and> block_alloc_time (memory m3) (p0 - sizeof_memory_block) = now2
                   \<and> free_list pool3 = free_list pool1
                   \<and> allocated_blocks pool3 = allocated_blocks pool1))"
  proof (cases "pool_malloc True now1 pool0 m0")
    case (fields p0 pool1 m1)
    show ?thesis
      unfolding fields prod.case
      by (intro impI, elim conjE, rule lifo_round_trip [OF fields], assumption+)
  qed
next
  show "\<not> pool_free_accepts taken' pool' p' m' \<longrightarrow>
         fst (snd (pool_free taken' pool' p' m')) = pool' \<and>
         memory (snd (snd (pool_free taken' pool' p' m'))) = memory m'"
    by (intro impI conjI; rule pool_free_not_pushed; assumption)
qed

theorem pool_lifo_reuse_witness:
  "(let alloc = pool_malloc True 10 (fst small_pool_ready) (snd small_pool_ready);
        rel = pool_free True (fst (snd alloc)) 0x3FFB0070 (snd (snd alloc));
        again = pool_malloc True 20 (fst (snd rel)) (snd (snd rel));
        twice = pool_free True (fst (snd rel)) 0x3FFB0070 (snd (snd rel))
    in fst alloc = 0x3FFB0070
     \<and> free_list (fst small_pool_ready) = 0x3FFB0058
     \<and> block_pool_id (memory (snd small_pool_ready)) (free_list (fst small_pool_ready))
         = memory_pool.pool_id (fst small_pool_ready)
     \<and> pool_free_accepts True (fst (snd alloc)) 0x3FFB0070 (snd (snd alloc))
     \<and> (0x3FFB0070 :: addr) \<noteq> sizeof_memory_block
     \<and> chain (memory (snd (snd alloc))) (free_list (fst (snd alloc))) [0x3FFB0000]
     \<and> apart (0x3FFB0070 - sizeof_memory_block) 0x3FFB0000
     \<and> fst rel
     \<and> free_list (fst (snd rel)) = 0x3FFB0058
     \<and> block_next (memory (snd (snd rel))) 0x3FFB0058 = 0x3FFB0000
     \<and> block_magic (memory (snd (snd rel))) 0x3FFB0058 = POOL_MAGIC_FREE
     \<and> chain (memory (snd (snd rel))) (free_list (fst (snd rel))) [0x3FFB0058, 0x3FFB0000]
     \<and> allocated_blocks (fst (snd rel)) = 0
     \<and> fst again = 0x3FFB0070
     \<and> free_list (fst (snd again)) = 0x3FFB0000
     \<and> chain (memory (snd (snd again))) (free_list (fst (snd again))) [0x3FFB0000]
     \<and> block_magic (memory (snd (snd again))) 0x3FFB0058 = POOL_MAGIC_ALLOC
     \<and> block_alloc_time (memory (snd (snd again))) 0x3FFB0058 = 20
     \<and> allocated_blocks (fst (snd again)) = 1
     \<and> free_list (fst (snd again)) = free_list (fst (snd alloc))
     \<and> allocated_blocks (fst (snd again)) = allocated_blocks (fst (snd alloc))
     \<and> \<not> pool_free_accepts True (fst (snd rel)) 0x3FFB0070 (snd (snd rel))
     \<and> fst (snd twice) = fst (snd rel)
     \<and> memory (snd (snd twice)) = memory (snd (snd rel)))"
proof -
  let ?alloc = "pool_malloc True 10 (fst small_pool_ready) (snd small_pool_ready)"
  let ?p = "0x3FFB0070 :: addr"
  let ?rel = "pool_free True (fst (snd ?alloc)) ?p (snd (snd ?alloc))"
  let ?again = "pool_malloc True 20 (fst (snd ?rel)) (snd (snd ?rel))"
  let ?twice = "pool_free True (fst (snd ?rel)) ?p (snd (snd ?rel))"
  have h0: "fst ?alloc = ?p"
    by (simp add: eval_small_pool)
  have hd: "free_list (fst small_pool_ready) = 0x3FFB0058"
    by (simp add: eval_small_pool)
  have h1: "block_pool_id (memory (snd small_pool_ready)) (free_list (fst small_pool_ready))
         = memory_pool.pool_id (fst small_pool_ready)"
    by (simp add: eval_small_pool)
  have acc: "pool_free_accepts True (fst (snd ?alloc)) ?p (snd (snd ?alloc))"
    by (simp add: eval_small_pool)
  have nz: "?p \<noteq> sizeof_memory_block"
    by (simp add: sizeof_memory_block_def)
  have blk: "?p - sizeof_memory_block = 0x3FFB0058"
    by (simp add: sizeof_memory_block_def)
  have c: "chain (memory (snd (snd ?alloc))) (free_list (fst (snd ?alloc))) [0x3FFB0000]"
    by (simp add: eval_small_pool)
  have ap: "apart (?p - sizeof_memory_block) 0x3FFB0000"
    by (simp add: apart_def sizeof_memory_block_def)
  have old: "free_list (fst (snd ?alloc)) = 0x3FFB0000" "allocated_blocks (fst (snd ?alloc)) = 1"
    by (simp_all add: eval_small_pool)
  have rej: "\<not> pool_free_accepts True (fst (snd ?rel)) ?p (snd (snd ?rel))"
    by (simp add: eval_small_pool)
  have p0: "fst ?alloc \<noteq> NULL"
    unfolding h0 by simp
  note t = pool_lifo_reuse [where pool = "fst (snd ?alloc)" and p = ?p and m = "snd (snd ?alloc)"
      and fl = "[0x3FFB0000]" and now = 20 and ?pool0.0 = "fst small_pool_ready"
      and ?m0.0 = "snd small_pool_ready" and ?now1.0 = 10 and ?now2.0 = 20
      and taken' = True and pool' = "fst (snd ?rel)" and p' = ?p and m' = "snd (snd ?rel)"]
  have aps: "\<forall>x\<in>set [0x3FFB0000]. apart (?p - sizeof_memory_block) x"
    using ap by simp
  note part1 = t [THEN conjunct1, THEN mp, OF conjI [OF acc nz], unfolded split_def]
  note part2 = t [THEN conjunct2, THEN conjunct1, unfolded split_def, THEN mp, OF conjI [OF p0 h1],
      unfolded h0]
  note part3 = t [THEN conjunct2, THEN conjunct2, THEN mp, OF rej]
  have r1: "fst ?rel" and r2: "free_list (fst (snd ?rel)) = ?p - sizeof_memory_block"
    and r3: "block_next (memory (snd (snd ?rel))) (?p - sizeof_memory_block)
               = free_list (fst (snd ?alloc))"
    and r4: "allocated_blocks (fst (snd ?rel)) = allocated_blocks (fst (snd ?alloc)) - 1"
    and r5: "chain (memory (snd (snd ?rel))) (free_list (fst (snd ?rel)))
               ((?p - sizeof_memory_block) # [0x3FFB0000])"
    and r6: "block_magic (memory (snd (snd ?rel))) (?p - sizeof_memory_block) = POOL_MAGIC_FREE"
    and a1: "fst ?again = ?p"
    and a3: "block_magic (memory (snd (snd ?again))) (?p - sizeof_memory_block) = POOL_MAGIC_ALLOC"
    and a4: "block_alloc_time (memory (snd (snd ?again))) (?p - sizeof_memory_block) = 20"
    and a6: "chain (memory (snd (snd ?again))) (free_list (fst (snd ?again))) [0x3FFB0000]"
    using part1 c aps by blast+
  have b2: "free_list (fst (snd ?again)) = free_list (fst (snd ?alloc))"
    and b5: "allocated_blocks (fst (snd ?again)) = allocated_blocks (fst (snd ?alloc))"
    using part2 by blast+
  have t1: "fst (snd ?twice) = fst (snd ?rel)"
    and t2: "memory (snd (snd ?twice)) = memory (snd (snd ?rel))"
    using part3 by blast+
  show ?thesis
    unfolding Let_def
    using h0 hd h1 acc nz c ap r1 r2 [unfolded blk] r3 [unfolded blk old] r5 [unfolded blk]
      r6 [unfolded blk] r4 [unfolded old] a1 b2 [unfolded old] a6 a3 [unfolded blk]
      a4 [unfolded blk] b5 [unfolded old] old rej t1 t2
    by simp
qed

subsection \<open>Peak usage\<close>

text \<open>
  Claim C3 as written fails on the code: \<open>pool_malloc\<close> has no statement that writes
  \<open>peak_usage\<close>.  After one successful allocation from a freshly initialised pool,
  \<open>allocated_blocks\<close> is 1 and \<open>peak_usage\<close> is still 0.
\<close>

theorem pool_peak_usage_counterexample:
  "\<not> allocated_blocks (fst (run_ops [Allocate True 10] small_pool_ready))
       \<le> memory_pool.peak_usage (fst (run_ops [Allocate True 10] small_pool_ready))"
  by (simp add: run_ops_Cons run_ops_Nil small_pool_ready_eval pool_malloc_def Let_def
      zeroed_pool_def)

text \<open>
  Claim C3, amended.  \<open>init_memory_pool\<close> leaves \<open>peak_usage\<close> at 0, and neither
  \<open>pool_malloc\<close> nor \<open>pool_free\<close> nor any sequence of them changes it: the field is
  constant, hence never decreases, and it does not follow \<open>allocated_blocks\<close>.
\<close>

theorem pool_peak_usage_constant:
  "memory_pool.peak_usage (fst (snd (init_memory_pool mem bitmap mtx config pid m0))) = 0 \<and>
   memory_pool.peak_usage (fst (snd (pool_malloc taken now pool m))) = memory_pool.peak_usage pool \<and>
   memory_pool.peak_usage (fst (snd (pool_free taken pool p m))) = memory_pool.peak_usage pool \<and>
   memory_pool.peak_usage (fst (run_ops ops (pool, m))) = memory_pool.peak_usage pool"
  by (simp add: init_memory_pool_peak pool_malloc_peak pool_free_peak run_ops_peak)

subsection \<open>Releasing twice\<close>

text \<open>
  Claim C2 against the code.  A block is allocated from a freshly initialised pool and
  released twice.  The first release returns \<open>true\<close>; the second finds the header tagged
  free, leaves the pool as it is, and returns \<open>true\<close> as well: \<open>pool_free\<close> ends in
  \<open>return true\<close> on every path that passes its null checks, so a failed validation is
  not reported to the caller.
\<close>

theorem pool_free_twice_reports_success:
  "fst (pool_malloc True 10 (fst small_pool_ready) (snd small_pool_ready)) = 0x3FFB0070 \<and>
   fst (pool_free True (fst (run_ops [Allocate True 10] small_pool_ready)) 0x3FFB0070
          (snd (run_ops [Allocate True 10] small_pool_ready))) = True \<and>
   fst (pool_free True (fst (run_ops [Allocate True 10, Release True 0x3FFB0070] small_pool_ready))
          0x3FFB0070 (snd (run_ops [Allocate True 10, Release True 0x3FFB0070] small_pool_ready)))
     = True \<and>
   fst (snd (pool_free True (fst (run_ops [Allocate True 10, Release True 0x3FFB0070] small_pool_ready))
          0x3FFB0070 (snd (run_ops [Allocate True 10, Release True 0x3FFB0070] small_pool_ready))))
     = fst (run_ops [Allocate True 10, Release True 0x3FFB0070] small_pool_ready)"
  by (simp add: eval_small_pool)

subsection \<open>The dispatcher loop\<close>

lemma upt_0_3: "[0 ..< 3] = [0, 1, 2]"
  by (simp add: eval_nat_numeral)

lemma three_pools_ready_eval:
  "map free_list (fst three_pools_ready) = [0x3FFB0058, 0x3FFB1000, 0x3FFB2000] \<and>
   map memory_pool.block_size (fst three_pools_ready) = [64, 256, 1024] \<and>
   map mutex (fst three_pools_ready) = [True, True, True] \<and>
   map allocated_blocks (fst three_pools_ready) = [0, 0, 0] \<and>
   block_next (memory (snd three_pools_ready)) 0x3FFB1000 = NULL \<and>
   block_next (memory (snd three_pools_ready)) 0x3FFB2000 = NULL \<and>
   heap_calls (snd three_pools_ready) =
     [Malloc 176 MALLOC_CAP_INTERNAL, Calloc 1 1 MALLOC_CAP_INTERNAL,
      Malloc 280 MALLOC_CAP_INTERNAL, Calloc 1 1 MALLOC_CAP_INTERNAL,
      Malloc 1048 MALLOC_CAP_DEFAULT, Calloc 1 1 MALLOC_CAP_INTERNAL]"
  by (simp add: three_pools_ready_def init_pools_def init_memory_pool_def three_classes_def
      boot_machine_def zeroed_pool_def init_block_def Let_def sizeof_memory_block_def
      upt_0_2 upt_0_3 buffer_of_def bitmap_of_def all_taken_def eval_memory)

lemma pool_malloc_can_serve:
  assumes "pool_can_serve taken pool" and "free_list pool \<noteq> - sizeof_memory_block"
  shows "fst (pool_malloc taken now pool m) = free_list pool + sizeof_memory_block"
    and "fst (pool_malloc taken now pool m) \<noteq> NULL"
    and "free_list (fst (snd (pool_malloc taken now pool m))) = block_next (memory m) (free_list pool)"
    and "allocated_blocks (fst (snd (pool_malloc taken now pool m))) = allocated_blocks pool + 1"
    and "heap_calls (snd (snd (pool_malloc taken now pool m))) = heap_calls m"
    and "memory_pool.block_size (fst (snd (pool_malloc taken now pool m))) = memory_pool.block_size pool"
    and "mutex (fst (snd (pool_malloc taken now pool m))) = mutex pool"
proof -
  have served: "mutex pool" "taken" "free_list pool \<noteq> NULL"
    using assms(1) by (simp_all add: pool_can_serve_def)
  note r = pool_malloc_served [OF served, of now m]
  show "fst (pool_malloc taken now pool m) = free_list pool + sizeof_memory_block"
    by (simp add: r)
  have "free_list pool + sizeof_memory_block \<noteq> 0"
    using assms(2) by (metis add.commute add_eq_0_iff)
  then show "fst (pool_malloc taken now pool m) \<noteq> NULL"
    by (simp add: r)
  show "free_list (fst (snd (pool_malloc taken now pool m))) = block_next (memory m) (free_list pool)"
    by (simp add: r)
  show "allocated_blocks (fst (snd (pool_malloc taken now pool m))) = allocated_blocks pool + 1"
    by (simp add: r)
  show "heap_calls (snd (snd (pool_malloc taken now pool m))) = heap_calls m"
    by (simp add: r)
  show "memory_pool.block_size (fst (snd (pool_malloc taken now pool m))) = memory_pool.block_size pool"
    by (simp add: r)
  show "mutex (fst (snd (pool_malloc taken now pool m))) = mutex pool"
    by (simp add: r)
qed

lemma pool_malloc_cannot_serve:
  assumes "\<not> pool_can_serve taken pool"
  shows "fst (pool_malloc taken now pool m) = NULL"
    and "free_list (fst (snd (pool_malloc taken now pool m))) = free_list pool"
    and "allocated_blocks (fst (snd (pool_malloc taken now pool m))) = allocated_blocks pool"
    and "memory_pool.block_size (fst (snd (pool_malloc taken now pool m))) = memory_pool.block_size pool"
    and "mutex (fst (snd (pool_malloc taken now pool m))) = mutex pool"
    and "memory (snd (snd (pool_malloc taken now pool m))) = memory m"
    and "heap_calls (snd (snd (pool_malloc taken now pool m))) = heap_calls m"
  using assms pool_malloc_not_served [of pool taken now m]
  by (auto simp add: pool_can_serve_def)

lemma map_update_same: "i < length xs \<Longrightarrow> f v = f (xs ! i) \<Longrightarrow> map f (xs[i := v]) = map f xs"
  by (simp add: map_update list_update_same_conv)

lemma smart_pool_malloc_loop_char:
  assumes "distinct idx" and "\<forall>i\<in>set idx. i < length pools"
    and "\<forall>pool\<in>set pools. free_list pool \<noteq> - sizeof_memory_block"
  shows "case find (\<lambda>i. required \<le> memory_pool.block_size (pools ! i)
                       \<and> pool_can_serve (lock i) (pools ! i)) idx of
      None \<Rightarrow>
        (case smart_pool_malloc_loop lock now cfgs required idx pools m of (r, pools', m') \<Rightarrow>
           r = None \<and> memory m' = memory m \<and> heap_calls m' = heap_calls m
           \<and> map free_list pools' = map free_list pools
           \<and> map allocated_blocks pools' = map allocated_blocks pools
           \<and> map memory_pool.block_size pools' = map memory_pool.block_size pools
           \<and> map mutex pools' = map mutex pools)
    | Some i \<Rightarrow>
        (case smart_pool_malloc_loop lock now cfgs required idx pools m of (r, pools', m') \<Rightarrow>
           r = Some (free_list (pools ! i) + sizeof_memory_block)
           \<and> heap_calls m' = heap_calls m
           \<and> map free_list pools' = (map free_list pools)[i := block_next (memory m) (free_list (pools ! i))]
           \<and> map allocated_blocks pools'
               = (map allocated_blocks pools)[i := allocated_blocks (pools ! i) + 1]
           \<and> map memory_pool.block_size pools' = map memory_pool.block_size pools
           \<and> map mutex pools' = map mutex pools)"
  using assms
proof (induction idx arbitrary: pools m)
  case Nil
  then show ?case by simp
next
  case (Cons i rest)
  let ?P = "\<lambda>ps j. required \<le> memory_pool.block_size (ps ! j) \<and> pool_can_serve (lock j) (ps ! j)"
  have i: "i < length pools" and irest: "i \<notin> set rest" and drest: "distinct rest"
    and rest: "\<forall>j\<in>set rest. j < length pools"
    using Cons.prems by simp_all
  have head: "free_list (pools ! i) \<noteq> - sizeof_memory_block"
    using Cons.prems(3) i by simp
  show ?case
  proof (cases "required \<le> memory_pool.block_size (pools ! i)")
    case False
    then have loop: "smart_pool_malloc_loop lock now cfgs required (i # rest) pools m
                  = smart_pool_malloc_loop lock now cfgs required rest pools m"
      by simp
    have fnd: "find (?P pools) (i # rest) = find (?P pools) rest"
      using False by simp
    show ?thesis
      unfolding fnd loop by (rule Cons.IH [OF drest rest Cons.prems(3)])
  next
    case fits: True
    obtain q pool' m' where pm: "pool_malloc (lock i) now (pools ! i) m = (q, pool', m')"
      by (cases "pool_malloc (lock i) now (pools ! i) m")
    show ?thesis
    proof (cases "pool_can_serve (lock i) (pools ! i)")
      case True
      note s = pool_malloc_can_serve [OF True head, of now m, unfolded pm, simplified]
      have loop: "smart_pool_malloc_loop lock now cfgs required (i # rest) pools m
                  = (Some q, pools[i := pool'], m'\<lparr>gpio := (gpio m')(led_pin (cfgs ! i) := False)\<rparr>)"
        using fits s(2) by (simp add: pm)
      have fnd: "find (?P pools) (i # rest) = Some i"
        using fits True by simp
      have bs: "map memory_pool.block_size (pools[i := pool']) = map memory_pool.block_size pools"
        and mx: "map mutex (pools[i := pool']) = map mutex pools"
        using i s by (simp_all add: map_update_same)
      show ?thesis
        unfolding fnd loop using s(1,3,4,5) i by (simp add: bs mx) (simp add: map_update)
    next
      case False
      note f = pool_malloc_cannot_serve [OF False, of now m, unfolded pm, simplified]
      let ?pools = "pools[i := pool']"
      have same: "\<And>j. j \<in> set rest \<Longrightarrow> ?pools ! j = pools ! j"
        using irest by (metis nth_list_update_neq)
      have find_eq: "find (?P ?pools) rest = find (?P pools) rest"
        by (rule find_cong) (simp_all add: same)
      have rest': "\<forall>j\<in>set rest. j < length ?pools"
        using rest by simp
      have heads': "\<forall>pool\<in>set ?pools. free_list pool \<noteq> - sizeof_memory_block"
      proof
        fix pool assume "pool \<in> set ?pools"
        then have "pool = pool' \<or> pool \<in> set pools"
          using set_update_subset_insert [of pools i pool'] by auto
        then show "free_list pool \<noteq> - sizeof_memory_block"
          using Cons.prems(3) head f(2) by auto
      qed
      have fl: "map free_list ?pools = map free_list pools"
        and ab: "map allocated_blocks ?pools = map allocated_blocks pools"
        and bs: "map memory_pool.block_size ?pools = map memory_pool.block_size pools"
        and mx: "map mutex ?pools = map mutex pools"
        using i f by (simp_all add: map_update_same)
      have loop: "smart_pool_malloc_loop lock now cfgs required (i # rest) pools m
                  = smart_pool_malloc_loop lock now cfgs required rest ?pools m'"
        using fits f(1) by (simp add: pm)
      have fnd: "find (?P pools) (i # rest) = find (?P pools) rest"
        using False by simp
      have nth_i: "\<And>j. j \<in> set rest \<Longrightarrow> free_list (?pools ! j) = free_list (pools ! j)
                        \<and> allocated_blocks (?pools ! j) = allocated_blocks (pools ! j)"
        using same by simp
      show ?thesis
      proof (cases "find (?P pools) rest")
        case None
        then show ?thesis
          unfolding fnd loop
          using Cons.IH [OF drest rest' heads', of m'] find_eq f(6,7)
          by (simp add: fl ab bs mx split: prod.splits)
      next
        case (Some j)
        then have "j \<in> set rest"
          by (metis find_Some_iff nth_mem)
        then show ?thesis
          unfolding fnd loop
          using Cons.IH [OF drest rest' heads', of m'] find_eq f(6,7) Some nth_i [of j] same [of j]
          by (simp add: fl ab bs mx split: prod.splits)
      qed
    qed
  qed
qed

lemma required_fits:
  assumes "unat (sz :: size_t) + 16 < 2 ^ 32"
  shows "(sz + 16 \<le> b) = (unat sz + 16 \<le> unat b)"
proof -
  have "unat sz + unat (16 :: size_t) < 2 ^ LENGTH(32)"
    using assms by simp
  then have "unat (sz + 16) = unat sz + unat (16 :: size_t)"
    by (rule unat_add_lem [THEN iffD1])
  then show ?thesis
    by (simp add: word_le_nat_alt)
qed

lemma smart_pool_malloc_char:
  assumes nowrap: "unat sz + 16 < 2 ^ 32"
    and heads: "\<forall>pool\<in>set pools. free_list pool \<noteq> - sizeof_memory_block"
  shows "case serving_class lock sz pools of
      None \<Rightarrow>
        (case smart_pool_malloc lock now raw cfgs sz pools m of (q, pools', m') \<Rightarrow>
           q = raw \<and> heap_calls m' = heap_calls m @ [Malloc sz MALLOC_CAP_DEFAULT]
           \<and> memory m' = memory m
           \<and> map free_list pools' = map free_list pools
           \<and> map allocated_blocks pools' = map allocated_blocks pools
           \<and> map memory_pool.block_size pools' = map memory_pool.block_size pools
           \<and> map mutex pools' = map mutex pools)
    | Some i \<Rightarrow>
        (case smart_pool_malloc lock now raw cfgs sz pools m of (q, pools', m') \<Rightarrow>
           q = free_list (pools ! i) + sizeof_memory_block
           \<and> heap_calls m' = heap_calls m
           \<and> map free_list pools' = (map free_list pools)[i := block_next (memory m) (free_list (pools ! i))]
           \<and> map allocated_blocks pools'
               = (map allocated_blocks pools)[i := allocated_blocks (pools ! i) + 1]
           \<and> map memory_pool.block_size pools' = map memory_pool.block_size pools
           \<and> map mutex pools' = map mutex pools)"
proof -
  have idx: "distinct [0 ..< length pools]" "\<forall>i\<in>set [0 ..< length pools]. i < length pools"
    by simp_all
  note loop = smart_pool_malloc_loop_char [OF idx heads, where required = "sz + 16" and lock = lock
      and now = now and cfgs = cfgs and m = m]
  show ?thesis
    using loop unfolding serving_class_def smart_pool_malloc_def Let_def required_fits [OF nowrap]
    by (auto split: option.splits prod.splits)
qed

lemma serving_class_three_classes:
  assumes "map memory_pool.block_size pools = [64, 256, 1024]"
  shows "serving_class lock 2000 pools = None"
    and "serving_class lock 200 pools \<noteq> Some 0"
    and "serving_class lock 200 pools =
          (if pool_can_serve (lock 1) (pools ! 1) then Some 1
           else if pool_can_serve (lock 2) (pools ! 2) then Some 2 else None)"
proof -
  obtain p0 p1 p2 where pools: "pools = [p0, p1, p2]"
    using assms by (auto simp: map_eq_Cons_conv)
  have sizes: "memory_pool.block_size p0 = 64" "memory_pool.block_size p1 = 256"
    "memory_pool.block_size p2 = 1024"
    using assms pools by simp_all
  have l2: "lock 2 = lock (Suc (Suc 0))"
    by (simp add: numeral_2_eq_2)
  show "serving_class lock 2000 pools = None"
    by (simp add: serving_class_def pools sizes upt_0_3)
  show "serving_class lock 200 pools \<noteq> Some 0"
    by (simp add: serving_class_def pools sizes upt_0_3)
  show "serving_class lock 200 pools =
          (if pool_can_serve (lock 1) (pools ! 1) then Some 1
           else if pool_can_serve (lock 2) (pools ! 2) then Some 2 else None)"
    by (simp add: serving_class_def pools sizes l2)
qed

lemma heads_from_map:
  "c \<notin> set (map free_list pools) \<Longrightarrow> \<forall>pool\<in>set pools. free_list pool \<noteq> c"
  by auto

lemma nth_from_map: "map f xs = ys \<Longrightarrow> i < length ys \<Longrightarrow> f (xs ! i) = ys ! i"
  by (metis length_map nth_map)

lemma three_pools_ready_facts:
  shows "unat (200 :: size_t) + 16 < 2 ^ 32" and "unat (2000 :: size_t) + 16 < 2 ^ 32"
    and "\<forall>pool\<in>set (fst three_pools_ready). free_list pool \<noteq> - sizeof_memory_block"
    and "serving_class all_taken 200 (fst three_pools_ready) = Some 1"
    and "serving_class all_taken 2000 (fst three_pools_ready) = None"
    and "free_list (fst three_pools_ready ! 1) = 0x3FFB1000"
    and "allocated_blocks (fst three_pools_ready ! 1) = 0"
proof -
  note ev = three_pools_ready_eval
  show "unat (200 :: size_t) + 16 < 2 ^ 32" and "unat (2000 :: size_t) + 16 < 2 ^ 32"
    by simp_all
  show "\<forall>pool\<in>set (fst three_pools_ready). free_list pool \<noteq> - sizeof_memory_block"
    by (rule heads_from_map) (simp add: ev sizeof_memory_block_def)
  have bs: "map memory_pool.block_size (fst three_pools_ready) = [64, 256, 1024]"
    using ev by simp
  have m1: "mutex (fst three_pools_ready ! 1) = True"
    using nth_from_map [of mutex "fst three_pools_ready" "[True, True, True]" 1] ev by simp
  show f1: "free_list (fst three_pools_ready ! 1) = 0x3FFB1000"
    using nth_from_map [of free_list "fst three_pools_ready" "[0x3FFB0058, 0x3FFB1000, 0x3FFB2000]" 1] ev
    by simp
  show "allocated_blocks (fst three_pools_ready ! 1) = 0"
    using nth_from_map [of allocated_blocks "fst three_pools_ready" "[0, 0, 0]" 1] ev by simp
  have "pool_can_serve (all_taken 1) (fst three_pools_ready ! 1)"
    using m1 f1 by (simp add: pool_can_serve_def all_taken_def)
  then show "serving_class all_taken 200 (fst three_pools_ready) = Some 1"
    using serving_class_three_classes(3) [OF bs, of all_taken] by simp
  show "serving_class all_taken 2000 (fst three_pools_ready) = None"
    by (rule serving_class_three_classes(1) [OF bs])
qed

lemma smart_pool_malloc_served:
  assumes "serving_class lock sz pools = Some i"
    and "unat sz + 16 < 2 ^ 32"
    and "\<forall>pool\<in>set pools. free_list pool \<noteq> - sizeof_memory_block"
  shows "fst (smart_pool_malloc lock now raw cfgs sz pools m) = free_list (pools ! i) + sizeof_memory_block"
    and "heap_calls (snd (snd (smart_pool_malloc lock now raw cfgs sz pools m))) = heap_calls m"
    and "map free_list (fst (snd (smart_pool_malloc lock now raw cfgs sz pools m)))
          = (map free_list pools)[i := block_next (memory m) (free_list (pools ! i))]"
    and "map allocated_blocks (fst (snd (smart_pool_malloc lock now raw cfgs sz pools m)))
          = (map allocated_blocks pools)[i := allocated_blocks (pools ! i) + 1]"
    and "map memory_pool.block_size (fst (snd (smart_pool_malloc lock now raw cfgs sz pools m)))
          = map memory_pool.block_size pools"
    and "map mutex (fst (snd (smart_pool_malloc lock now raw cfgs sz pools m))) = map mutex pools"
  using smart_pool_malloc_char [OF assms(2,3), where lock = lock and now = now and raw = raw
      and cfgs = cfgs and m = m] assms(1)
  by (simp_all add: split_def)

lemma smart_pool_malloc_fallback:
  assumes "serving_class lock sz pools = None"
    and "unat sz + 16 < 2 ^ 32"
    and "\<forall>pool\<in>set pools. free_list pool \<noteq> - sizeof_memory_block"
  shows "fst (smart_pool_malloc lock now raw cfgs sz pools m) = raw"
    and "heap_calls (snd (snd (smart_pool_malloc lock now raw cfgs sz pools m)))
          = heap_calls m @ [Malloc sz MALLOC_CAP_DEFAULT]"
    and "map free_list (fst (snd (smart_pool_malloc lock now raw cfgs sz pools m))) = map free_list pools"
    and "map memory_pool.block_size (fst (snd (smart_pool_malloc lock now raw cfgs sz pools m)))
          = map memory_pool.block_size pools"
    and "map mutex (fst (snd (smart_pool_malloc lock now raw cfgs sz pools m))) = map mutex pools"
  using smart_pool_malloc_char [OF assms(2,3), where lock = lock and now = now and raw = raw
      and cfgs = cfgs and m = m] assms(1)
  by (simp_all add: split_def)

lemma after_request_200_eval:
  "map free_list (fst after_request_200) = [0x3FFB0058, NULL, 0x3FFB2000] \<and>
   map memory_pool.block_size (fst after_request_200) = [64, 256, 1024] \<and>
   map mutex (fst after_request_200) = [True, True, True] \<and>
   map allocated_blocks (fst after_request_200) = [0, 1, 0] \<and>
   heap_calls (snd after_request_200) = heap_calls (snd three_pools_ready)"
  unfolding after_request_200_def
  using smart_pool_malloc_served [OF three_pools_ready_facts(4,1,3),
      where now = 10 and raw = "0x3FFD0000" and cfgs = three_classes and m = "snd three_pools_ready"]
    three_pools_ready_eval three_pools_ready_facts(6,7)
  by simp

lemma after_request_2000_eval:
  "map mutex (fst after_request_2000) = [True, True, True] \<and>
   heap_calls (snd after_request_2000)
     = heap_calls (snd three_pools_ready) @ [Malloc 2000 MALLOC_CAP_DEFAULT]"
  unfolding after_request_2000_def
  using smart_pool_malloc_fallback [OF three_pools_ready_facts(5,2,3),
      where now = 10 and raw = "0x3FFD0000" and cfgs = three_classes and m = "snd three_pools_ready"]
    three_pools_ready_eval
  by simp

lemma pool_free_heap_calls:
  "heap_calls (snd (snd (pool_free taken pool p m))) = heap_calls m"
  by (simp add: pool_free_def Let_def)

lemma smart_pool_free_first_pool:
  assumes "pools \<noteq> []" and "mutex (pools ! 0)" and "p \<noteq> NULL"
  shows "fst (smart_pool_free lock p pools m) = True"
    and "heap_calls (snd (snd (smart_pool_free lock p pools m))) = heap_calls m"
    and "fst (snd (smart_pool_free lock p pools m))
           = pools[0 := fst (snd (pool_free (lock 0) (pools ! 0) p m))]"
proof -
  have idx: "[0 ..< length pools] = 0 # [1 ..< length pools]"
    using assms(1) by (simp add: upt_conv_Cons)
  obtain ok pool' m' where pf: "pool_free (lock 0) (pools ! 0) p m = (ok, pool', m')"
    by (cases "pool_free (lock 0) (pools ! 0) p m")
  have ok: "ok"
    using pool_free_returns_true [OF assms(3,2), of "lock 0" m] pf by simp
  have hc: "heap_calls m' = heap_calls m"
    using pool_free_heap_calls [of "lock 0" "pools ! 0" p m] pf by simp
  have loop: "smart_pool_free_loop lock p [0 ..< length pools] pools m = (True, pools[0 := pool'], m')"
    unfolding idx using ok by (simp add: pf)
  show "fst (smart_pool_free lock p pools m) = True"
    by (simp add: smart_pool_free_def loop)
  show "heap_calls (snd (snd (smart_pool_free lock p pools m))) = heap_calls m"
    by (simp add: smart_pool_free_def loop hc)
  show "fst (snd (smart_pool_free lock p pools m))
           = pools[0 := fst (snd (pool_free (lock 0) (pools ! 0) p m))]"
    by (simp add: smart_pool_free_def loop pf)
qed

subsection \<open>The dispatcher\<close>

text \<open>
  Claim C1 as written fails on the code: the loop of \<open>smart_pool_malloc\<close> goes on to the
  next class when \<open>pool_malloc\<close> returns null.  With classes 64, 256 and 1024, once the only
  block of the 256-byte class is in use, a request for 200 bytes is served by the 1024-byte
  class and the general-purpose allocator is not called.
\<close>

theorem smart_pool_malloc_cascade_counterexample:
  "free_list (fst after_request_200 ! 1) = NULL \<and>
   fst (smart_pool_malloc all_taken 20 0x3FFD0000 three_classes 200
          (fst after_request_200) (snd after_request_200)) = 0x3FFB2018 \<and>
   map allocated_blocks (fst (snd (smart_pool_malloc all_taken 20 0x3FFD0000 three_classes 200
          (fst after_request_200) (snd after_request_200)))) = [0, 1, 1] \<and>
   heap_calls (snd (snd (smart_pool_malloc all_taken 20 0x3FFD0000 three_classes 200
          (fst after_request_200) (snd after_request_200)))) = heap_calls (snd after_request_200)"
proof -
  note ev = after_request_200_eval
  have bs: "map memory_pool.block_size (fst after_request_200) = [64, 256, 1024]"
    using ev by simp
  have f1: "free_list (fst after_request_200 ! 1) = NULL"
    using nth_from_map [of free_list "fst after_request_200" "[0x3FFB0058, NULL, 0x3FFB2000]" 1] ev
    by simp
  have f2: "free_list (fst after_request_200 ! 2) = 0x3FFB2000"
    using nth_from_map [of free_list "fst after_request_200" "[0x3FFB0058, NULL, 0x3FFB2000]" 2] ev
    by simp
  have m2: "mutex (fst after_request_200 ! 2) = True"
    using nth_from_map [of mutex "fst after_request_200" "[True, True, True]" 2] ev by simp
  have a2: "allocated_blocks (fst after_request_200 ! 2) = 0"
    using nth_from_map [of allocated_blocks "fst after_request_200" "[0, 1, 0]" 2] ev by simp
  have no1: "\<not> pool_can_serve (all_taken 1) (fst after_request_200 ! 1)"
    using f1 by (simp add: pool_can_serve_def)
  have yes2: "pool_can_serve (all_taken 2) (fst after_request_200 ! 2)"
    using f2 m2 by (simp add: pool_can_serve_def all_taken_def)
  have cls: "serving_class all_taken 200 (fst after_request_200) = Some 2"
    using serving_class_three_classes(3) [OF bs, of all_taken] no1 yes2 by simp
  have heads: "\<forall>pool\<in>set (fst after_request_200). free_list pool \<noteq> - sizeof_memory_block"
    by (rule heads_from_map) (simp add: ev sizeof_memory_block_def)
  note r = smart_pool_malloc_served [OF cls three_pools_ready_facts(1) heads,
      where now = 20 and raw = "0x3FFD0000" and cfgs = three_classes and m = "snd after_request_200"]
  show ?thesis
    using r(1,2,4) f1 f2 a2 ev by (simp add: sizeof_memory_block_def)
qed

text \<open>
  Claim C1, amended.  For a request whose size plus 16 does not wrap, and pools whose free
  lists do not start 24 bytes below the top of the address space: \<open>smart_pool_malloc\<close>
  serves the request from the first class in scan order that is large enough and can hand
  out a block, passing over classes that are large enough but exhausted (or whose mutex is
  not obtained); it calls the general-purpose allocator, leaving every free list as it is,
  only when no such class exists.  With classes 64, 256 and 1024, a request for 2000 bytes
  has no serving class, and a request for 200 bytes is never served by the 64-byte class: it
  is served by the 256-byte class when that can hand out a block, else by the 1024-byte class
  when that can, else by the general-purpose allocator.
\<close>

theorem smart_pool_malloc_first_serving_class:
  assumes "unat sz + 16 < 2 ^ 32"
    and "\<forall>pool\<in>set pools. free_list pool \<noteq> - sizeof_memory_block"
  shows "(case serving_class lock sz pools of
      None \<Rightarrow>
        (case smart_pool_malloc lock now raw cfgs sz pools m of (q, pools', m') \<Rightarrow>
           q = raw \<and> heap_calls m' = heap_calls m @ [Malloc sz MALLOC_CAP_DEFAULT]
           \<and> memory m' = memory m
           \<and> map free_list pools' = map free_list pools
           \<and> map allocated_blocks pools' = map allocated_blocks pools
           \<and> map memory_pool.block_size pools' = map memory_pool.block_size pools
           \<and> map mutex pools' = map mutex pools)
    | Some i \<Rightarrow>
        (case smart_pool_malloc lock now raw cfgs sz pools m of (q, pools', m') \<Rightarrow>
           q = free_list (pools ! i) + sizeof_memory_block
           \<and> heap_calls m' = heap_calls m
           \<and> map free_list pools' = (map free_list pools)[i := block_next (memory m) (free_list (pools ! i))]
           \<and> map allocated_blocks pools'
               = (map allocated_blocks pools)[i := allocated_blocks (pools ! i) + 1]
           \<and> map memory_pool.block_size pools' = map memory_pool.block_size pools
           \<and> map mutex pools' = map mutex pools))
   \<and> (map memory_pool.block_size pools = [64, 256, 1024] \<longrightarrow>
        serving_class lock 2000 pools = None \<and>
        serving_class lock 200 pools \<noteq> Some 0 \<and>
        serving_class lock 200 pools =
          (if pool_can_serve (lock 1) (pools ! 1) then Some 1
           else if pool_can_serve (lock 2) (pools ! 2) then Some 2 else None))"
proof (rule conjI)
  show "case serving_class lock sz pools of
      None \<Rightarrow>
        (case smart_pool_malloc lock now raw cfgs sz pools m of (q, pools', m') \<Rightarrow>
           q = raw \<and> heap_calls m' = heap_calls m @ [Malloc sz MALLOC_CAP_DEFAULT]
           \<and> memory m' = memory m
           \<and> map free_list pools' = map free_list pools
           \<and> map allocated_blocks pools' = map allocated_blocks pools
           \<and> map memory_pool.block_size pools' = map memory_pool.block_size pools
           \<and> map mutex pools' = map mutex pools)
    | Some i \<Rightarrow>
        (case smart_pool_malloc lock now raw cfgs sz pools m of (q, pools', m') \<Rightarrow>
           q = free_list (pools ! i) + sizeof_memory_block
           \<and> heap_calls m' = heap_calls m
           \<and> map free_list pools' = (map free_list pools)[i := block_next (memory m) (free_list (pools ! i))]
           \<and> map allocated_blocks pools'
               = (map allocated_blocks pools)[i := allocated_blocks (pools ! i) + 1]
           \<and> map memory_pool.block_size pools' = map memory_pool.block_size pools
           \<and> map mutex pools' = map mutex pools)"
    by (rule smart_pool_malloc_char [OF assms])
next
  show "map memory_pool.block_size pools = [64, 256, 1024] \<longrightarrow>
        serving_class lock 2000 pools = None \<and>
        serving_class lock 200 pools \<noteq> Some 0 \<and>
        serving_class lock 200 pools =
          (if pool_can_serve (lock 1) (pools ! 1) then Some 1
           else if pool_can_serve (lock 2) (pools ! 2) then Some 2 else None)"
  proof
    assume bs: "map memory_pool.block_size pools = [64, 256, 1024]"
    show "serving_class lock 2000 pools = None \<and>
        serving_class lock 200 pools \<noteq> Some 0 \<and>
        serving_class lock 200 pools =
          (if pool_can_serve (lock 1) (pools ! 1) then Some 1
           else if pool_can_serve (lock 2) (pools ! 2) then Some 2 else None)"
      by (intro conjI serving_class_three_classes [OF bs])
  qed
qed

theorem smart_pool_malloc_first_serving_class_witness:
  "unat (200 :: size_t) + 16 < 2 ^ 32 \<and>
   map free_list (fst three_pools_ready) = [0x3FFB0058, 0x3FFB1000, 0x3FFB2000] \<and>
   map memory_pool.block_size (fst three_pools_ready) = [64, 256, 1024] \<and>
   serving_class all_taken 200 (fst three_pools_ready) = Some 1 \<and>
   fst (smart_pool_malloc all_taken 10 0x3FFD0000 three_classes 200
          (fst three_pools_ready) (snd three_pools_ready)) = 0x3FFB1018 \<and>
   map allocated_blocks (fst (snd (smart_pool_malloc all_taken 10 0x3FFD0000 three_classes 200
          (fst three_pools_ready) (snd three_pools_ready)))) = [0, 1, 0] \<and>
   serving_class all_taken 2000 (fst three_pools_ready) = None"
proof -
  note f = three_pools_ready_facts
  have bs: "map memory_pool.block_size (fst three_pools_ready) = [64, 256, 1024]"
    using three_pools_ready_eval by simp
  have ab: "map allocated_blocks (fst three_pools_ready) = [0, 0, 0]"
    using three_pools_ready_eval by simp
  note t = smart_pool_malloc_first_serving_class [OF f(1) f(3), where lock = all_taken
      and now = 10 and raw = "0x3FFD0000" and cfgs = three_classes and m = "snd three_pools_ready"]
  have "serving_class all_taken 2000 (fst three_pools_ready) = None"
    using t bs by blast
  moreover have "fst (smart_pool_malloc all_taken 10 0x3FFD0000 three_classes 200
          (fst three_pools_ready) (snd three_pools_ready)) = 0x3FFB1018 \<and>
     map allocated_blocks (fst (snd (smart_pool_malloc all_taken 10 0x3FFD0000 three_classes 200
          (fst three_pools_ready) (snd three_pools_ready)))) = [0, 1, 0]"
    using t f(4,6,7) ab by (simp add: split_def sizeof_memory_block_def)
  moreover have "map free_list (fst three_pools_ready) = [0x3FFB0058, 0x3FFB1000, 0x3FFB2000]"
    using three_pools_ready_eval by simp
  ultimately show ?thesis
    using f(1,4) bs by blast
qed

subsection \<open>Releasing through the dispatcher\<close>

text \<open>
  Claim C7 against the code.  A request for 2000 bytes fits no class of the registry and is
  answered by the general-purpose allocator with \<open>0x3FFD0000\<close>.  Handing that pointer to
  \<open>smart_pool_free\<close> returns \<open>true\<close> from inside the loop at the first pool, whose
  \<open>pool_free\<close> reports success without having validated the header; \<open>heap_caps_free\<close> is
  not called, so the memory is never given back.
\<close>

theorem smart_pool_free_never_reaches_heap_caps_free:
  "fst (smart_pool_malloc all_taken 10 0x3FFD0000 three_classes 2000
          (fst three_pools_ready) (snd three_pools_ready)) = 0x3FFD0000 \<and>
   heap_calls (snd after_request_2000)
     = heap_calls (snd three_pools_ready) @ [Malloc 2000 MALLOC_CAP_DEFAULT] \<and>
   fst (smart_pool_free all_taken 0x3FFD0000 (fst after_request_2000) (snd after_request_2000))
     = True \<and>
   heap_calls (snd (snd (smart_pool_free all_taken 0x3FFD0000
          (fst after_request_2000) (snd after_request_2000))))
     = heap_calls (snd after_request_2000) \<and>
   Free 0x3FFD0000 \<notin> set (heap_calls (snd (snd (smart_pool_free all_taken 0x3FFD0000
          (fst after_request_2000) (snd after_request_2000)))))"
proof -
  note ev = after_request_2000_eval
  have ne: "fst after_request_2000 \<noteq> []"
    using ev by auto
  have m0: "mutex (fst after_request_2000 ! 0)"
    using nth_from_map [of mutex "fst after_request_2000" "[True, True, True]" 0] ev by simp
  note fr = smart_pool_free_first_pool [OF ne m0, of "0x3FFD0000" all_taken "snd after_request_2000"]
  have q: "fst (smart_pool_malloc all_taken 10 0x3FFD0000 three_classes 2000
          (fst three_pools_ready) (snd three_pools_ready)) = 0x3FFD0000"
    by (rule smart_pool_malloc_fallback(1) [OF three_pools_ready_facts(5,2,3)])
  show ?thesis
    using q ev fr(1,2) three_pools_ready_eval by simp
qed

section \<open>Lab 1: properties of the tracker\<close>

subsection \<open>A full table\<close>

lemma find_free_allocation_slot_from_full:
  "\<forall>a\<in>set as. is_active a \<Longrightarrow> find_free_allocation_slot_from as i = - 1"
  by (induction as arbitrary: i) simp_all

text \<open>
  Claim C8.  When no slot of the table is inactive and the raw allocation has returned a
  non-null pointer, \<open>tracked_malloc\<close> returns that pointer and leaves the table and every
  counter as they are, whether or not monitoring is enabled and the mutex obtained.  Its only
  effects are the call of \<open>heap_caps_malloc\<close> itself and, when the tracking step runs, the
  warning that the slots are full.
\<close>

theorem tracked_malloc_table_full:
  assumes "\<forall>a\<in>set (allocations t). is_active a" and "p \<noteq> NULL"
  shows "tracked_malloc taken now p sz cp desc t m =
    (p, t,
     m\<lparr>heap_calls := heap_calls m @ [Malloc sz cp],
       log := log m @ (if memory_monitoring_enabled t \<and> memory_mutex t \<and> taken
                       then [LogSlotsFull] else [])\<rparr>)"
  using assms find_free_allocation_slot_from_full [OF assms(1), of 0]
  by (simp add: tracked_malloc_def find_free_allocation_slot_def Let_def)

theorem tracked_malloc_table_full_witness:
  "length (allocations full_tracker) = MAX_ALLOCATIONS \<and>
   find_free_allocation_slot (allocations full_tracker) = - 1 \<and>
   tracked_malloc True 5 0x3FFD0000 64 MALLOC_CAP_INTERNAL (Some ''buf'') full_tracker boot_machine =
     (0x3FFD0000, full_tracker,
      boot_machine\<lparr>heap_calls := [Malloc 64 MALLOC_CAP_INTERNAL], log := [LogSlotsFull]\<rparr>)"
proof -
  have full: "\<forall>a\<in>set (allocations full_tracker). is_active a"
    by (simp add: full_tracker_def)
  have "find_free_allocation_slot (allocations full_tracker) = - 1"
    using find_free_allocation_slot_from_full [OF full, of 0]
    by (simp add: find_free_allocation_slot_def)
  moreover have "length (allocations full_tracker) = MAX_ALLOCATIONS"
    by (simp add: full_tracker_def)
  moreover have "tracked_malloc True 5 0x3FFD0000 64 MALLOC_CAP_INTERNAL (Some ''buf'') full_tracker boot_machine =
     (0x3FFD0000, full_tracker,
      boot_machine\<lparr>heap_calls := [Malloc 64 MALLOC_CAP_INTERNAL], log := [LogSlotsFull]\<rparr>)"
    using tracked_malloc_table_full [OF full, of "0x3FFD0000" True 5 64 MALLOC_CAP_INTERNAL
        "Some ''buf''" boot_machine]
    by (simp add: full_tracker_def initial_tracker_def boot_machine_def)
  ultimately show ?thesis by blast
qed

subsection \<open>The leak scan\<close>

lemma reported_slots_append:
  "reported_slots (xs @ ys) = reported_slots xs @ reported_slots ys"
  by (induction xs rule: reported_slots.induct) simp_all

lemma upt_Suc_shift: "[0 ..< Suc n] = 0 # map Suc [0 ..< n]"
  by (simp add: upt_conv_Cons map_Suc_upt del: upt_Suc)

lemma leak_scan_reported:
  "reported_slots (fst (leak_scan now as i (lines, lk, lb))) =
     reported_slots lines @
     map (\<lambda>j. i + j)
       (filter (\<lambda>j. is_active (as ! j) \<and> 30000 < (now - timestamp (as ! j)) div 1000)
          [0 ..< length as])"
proof (induction as arbitrary: i lines lk lb)
  case Nil
  then show ?case by simp
next
  case (Cons a as)
  have shift: "map (\<lambda>j. i + j)
       (filter (\<lambda>j. is_active ((a # as) ! j) \<and> 30000 < (now - timestamp ((a # as) ! j)) div 1000)
          (map Suc [0 ..< length as]))
     = map (\<lambda>j. Suc i + j)
       (filter (\<lambda>j. is_active (as ! j) \<and> 30000 < (now - timestamp (as ! j)) div 1000)
          [0 ..< length as])"
    by (simp add: filter_map comp_def)
  show ?case
  proof (cases "is_active a \<and> 30000 < (now - timestamp a) div 1000")
    case True
    then show ?thesis
      using Cons.IH [of "Suc i"] shift
      by (simp add: upt_Suc_shift reported_slots_append Let_def del: upt_Suc)
  next
    case False
    then show ?thesis
      using Cons.IH [of "Suc i" lines lk lb] shift
      by (auto simp add: upt_Suc_shift Let_def simp del: upt_Suc)
  qed
qed

lemma detect_memory_leaks_tracker:
  "fst (detect_memory_leaks taken now t m) = t"
  by (simp add: detect_memory_leaks_def Let_def split_def)

lemma leaks_reported_char:
  "leaks_reported taken now t m =
    (if memory_mutex t \<and> taken
     then filter (\<lambda>i. is_active (allocations t ! i)
                      \<and> 30000 < (now - timestamp (allocations t ! i)) div 1000)
            [0 ..< length (allocations t)]
     else [])"
proof (cases "memory_mutex t \<and> taken")
  case False
  then show ?thesis
    by (auto simp add: leaks_reported_def detect_memory_leaks_def)
next
  case True
  obtain lines lk lb where sc: "leak_scan now (allocations t) 0 ([], 0, 0) = (lines, lk, lb)"
    by (cases "leak_scan now (allocations t) 0 ([], 0, 0)")
  have rs: "reported_slots lines =
      filter (\<lambda>i. is_active (allocations t ! i)
                      \<and> 30000 < (now - timestamp (allocations t ! i)) div 1000)
            [0 ..< length (allocations t)]"
    using leak_scan_reported [of now "allocations t" 0 "[]" 0 0] sc by simp
  have "drop (length (log m)) (log (snd (detect_memory_leaks taken now t m)))
          = LogLeakScan # lines @ [if lk > 0 then LogFoundLeaks lk lb else LogNoLeaks]"
    using True by (simp add: detect_memory_leaks_def sc Let_def)
  then show ?thesis
    using True rs by (simp add: leaks_reported_def reported_slots_append)
qed

lemma find_free_allocation_slot_from_range:
  "0 \<le> find_free_allocation_slot_from as i \<Longrightarrow>
     int i \<le> find_free_allocation_slot_from as i \<and>
     find_free_allocation_slot_from as i < int i + int (length as)"
proof (induction as arbitrary: i)
  case Nil
  then show ?case by simp
next
  case (Cons a as)
  show ?case
  proof (cases "is_active a")
    case False
    then show ?thesis by simp
  next
    case True
    then have eq: "find_free_allocation_slot_from (a # as) i = find_free_allocation_slot_from as (Suc i)"
      by simp
    then have "0 \<le> find_free_allocation_slot_from as (Suc i)"
      using Cons.prems by simp
    from Cons.IH [OF this] show ?thesis
      unfolding eq by simp
  qed
qed

lemma find_allocation_by_ptr_from_range:
  "0 \<le> find_allocation_by_ptr_from as p i \<Longrightarrow>
     int i \<le> find_allocation_by_ptr_from as p i \<and>
     find_allocation_by_ptr_from as p i < int i + int (length as)"
proof (induction as arbitrary: i)
  case Nil
  then show ?case by simp
next
  case (Cons a as)
  show ?case
  proof (cases "is_active a \<and> ptr a = p")
    case True
    then show ?thesis by simp
  next
    case False
    then have eq: "find_allocation_by_ptr_from (a # as) p i = find_allocation_by_ptr_from as p (Suc i)"
      by auto
    then have "0 \<le> find_allocation_by_ptr_from as p (Suc i)"
      using Cons.prems by simp
    from Cons.IH [OF this] show ?thesis
      unfolding eq by simp
  qed
qed

lemma aged_entry:
  fixes T now :: uint64_t
  assumes "unat T + 30001000 \<le> unat now"
  shows "30000 < (now - T) div 1000"
proof -
  have le: "T \<le> now"
    using assms by (simp add: word_le_nat_alt)
  have "unat (now - T) = unat now - unat T"
    using le by (rule unat_sub)
  then have "30001000 \<le> unat (now - T)"
    using assms by simp
  then have "30001 \<le> unat (now - T) div 1000"
    by simp
  moreover have "unat ((now - T) div 1000) = unat (now - T) div 1000"
    by (simp add: unat_div)
  ultimately show ?thesis
    by (simp add: word_less_nat_alt)
qed

lemma tracked_malloc_records:
  assumes "memory_monitoring_enabled t" and "memory_mutex t" and "p \<noteq> NULL"
    and "0 \<le> find_free_allocation_slot (allocations t)"
  shows "nat (find_free_allocation_slot (allocations t))
           < length (allocations (fst (snd (tracked_malloc True T p sz cp desc t m))))"
    and "is_active (allocations (fst (snd (tracked_malloc True T p sz cp desc t m)))
           ! nat (find_free_allocation_slot (allocations t)))"
    and "timestamp (allocations (fst (snd (tracked_malloc True T p sz cp desc t m)))
           ! nat (find_free_allocation_slot (allocations t))) = T"
    and "memory_mutex (fst (snd (tracked_malloc True T p sz cp desc t m)))"
proof -
  let ?slot = "find_free_allocation_slot (allocations t)"
  have lt: "nat ?slot < length (allocations t)"
    using find_free_allocation_slot_from_range [of "allocations t" 0] assms(4)
    by (simp add: find_free_allocation_slot_def)
  show "nat ?slot < length (allocations (fst (snd (tracked_malloc True T p sz cp desc t m))))"
    using assms lt by (simp add: tracked_malloc_def Let_def)
  show "is_active (allocations (fst (snd (tracked_malloc True T p sz cp desc t m))) ! nat ?slot)"
    using assms lt by (simp add: tracked_malloc_def Let_def)
  show "timestamp (allocations (fst (snd (tracked_malloc True T p sz cp desc t m))) ! nat ?slot) = T"
    using assms lt by (simp add: tracked_malloc_def Let_def)
  show "memory_mutex (fst (snd (tracked_malloc True T p sz cp desc t m)))"
    using assms by (simp add: tracked_malloc_def Let_def)
qed

lemma tracked_free_deactivates:
  assumes "memory_monitoring_enabled t" and "memory_mutex t" and "p \<noteq> NULL"
    and "0 \<le> find_allocation_by_ptr (allocations t) p"
  shows "\<not> is_active (allocations (fst (tracked_free True p desc t m))
           ! nat (find_allocation_by_ptr (allocations t) p))"
proof -
  let ?slot = "find_allocation_by_ptr (allocations t) p"
  have lt: "nat ?slot < length (allocations t)"
    using find_allocation_by_ptr_from_range [of "allocations t" p 0] assms(4)
    by (simp add: find_allocation_by_ptr_def)
  show ?thesis
    using assms lt by (simp add: tracked_free_def Let_def)
qed

lemma recorded_entry_reported:
  assumes "memory_monitoring_enabled t" and "memory_mutex t" and "p \<noteq> NULL"
    and "0 \<le> find_free_allocation_slot (allocations t)"
    and "unat T + 30001000 \<le> unat now"
  shows "nat (find_free_allocation_slot (allocations t))
           \<in> set (leaks_reported True now (fst (snd (tracked_malloc True T p sz cp desc t m))) m2)"
  using tracked_malloc_records [OF assms(1-4), of T sz cp desc m] aged_entry [OF assms(5)]
  by (simp add: leaks_reported_char)

lemma released_entry_not_reported:
  assumes "memory_monitoring_enabled t" and "memory_mutex t" and "p \<noteq> NULL"
    and "0 \<le> find_allocation_by_ptr (allocations t) p"
  shows "nat (find_allocation_by_ptr (allocations t) p)
           \<notin> set (leaks_reported taken now (fst (tracked_free True p desc t m)) m2)"
  using tracked_free_deactivates [OF assms, of desc m]
  by (simp add: leaks_reported_char)

lemma replicate_MAX_ALLOCATIONS: "replicate MAX_ALLOCATIONS x = x # replicate 99 x"
proof -
  have "MAX_ALLOCATIONS = Suc 99" by (simp add: MAX_ALLOCATIONS_def)
  then have "replicate MAX_ALLOCATIONS x = replicate (Suc 99) x" by (rule arg_cong)
  then show ?thesis by (simp only: replicate_Suc)
qed

lemma tracked_once_eval:
  "allocations tracked_once =
     \<lparr>ptr = 0x3FFD0000, size' = 64, caps = MALLOC_CAP_INTERNAL, description = Some ''buf'',
      timestamp = 0, is_active = True\<rparr> # replicate 99 zeroed_allocation"
  "current_allocations (stats tracked_once) = 1"
  "memory_stats.total_deallocations (stats tracked_once) = 0"
  "memory_mutex tracked_once"
  "memory_monitoring_enabled tracked_once"
  by (simp_all add: tracked_once_def tracked_malloc_def initial_tracker_def
      replicate_MAX_ALLOCATIONS find_free_allocation_slot_def zeroed_allocation_def
      zeroed_stats_def Let_def)

text \<open>
  Claim C9 as written fails on the code: the age compared with the threshold of 30000
  milliseconds is the whole number of milliseconds in \<open>now - timestamp\<close>, both in
  microseconds.  An active entry recorded at time 0 and scanned 30000999 microseconds later,
  after more than the threshold, is not reported.
\<close>

theorem leak_scan_truncates_counterexample:
  "is_active (allocations tracked_once ! 0) \<and>
   timestamp (allocations tracked_once ! 0) = 0 \<and>
   0 \<notin> set (leaks_reported True 30000999 tracked_once boot_machine)"
  by (simp add: leaks_reported_char tracked_once_eval)

text \<open>
  Claim C9, amended.  \<open>detect_memory_leaks\<close> changes no tracker state.  A scan that obtains
  the mutex reports exactly the slots, in table order, whose entry is active and whose age in
  whole milliseconds, \<open>(now - timestamp) div 1000\<close> with both times in microseconds, exceeds
  30000; a scan that does not obtain the mutex reports nothing.  So an entry recorded by
  \<open>tracked_malloc\<close> at time \<open>T\<close> is reported by every scan at least 30001000 microseconds
  after \<open>T\<close>, and the entry that a \<open>tracked_free\<close> matches is not reported by any later
  scan, whatever the time.
\<close>

theorem leak_scan_reports_aged_active_entries:
  "fst (detect_memory_leaks taken now t m) = t \<and>
   leaks_reported taken now t m =
    (if memory_mutex t \<and> taken
     then filter (\<lambda>i. is_active (allocations t ! i)
                      \<and> 30000 < (now - timestamp (allocations t ! i)) div 1000)
            [0 ..< length (allocations t)]
     else []) \<and>
   (memory_monitoring_enabled t \<and> memory_mutex t \<and> p \<noteq> NULL
      \<and> 0 \<le> find_free_allocation_slot (allocations t) \<and> unat T + 30001000 \<le> unat later
    \<longrightarrow> nat (find_free_allocation_slot (allocations t))
           \<in> set (leaks_reported True later
                    (fst (snd (tracked_malloc True T p sz cp desc t m))) m2)) \<and>
   (memory_monitoring_enabled t \<and> memory_mutex t \<and> q \<noteq> NULL
      \<and> 0 \<le> find_allocation_by_ptr (allocations t) q
    \<longrightarrow> nat (find_allocation_by_ptr (allocations t) q)
           \<notin> set (leaks_reported taken2 later2 (fst (tracked_free True q desc2 t m)) m3))"
  using detect_memory_leaks_tracker [of taken now t m] leaks_reported_char [of taken now t m]
    recorded_entry_reported [of t p T later sz cp desc m m2]
    released_entry_not_reported [of t q taken2 later2 desc2 m m3]
  by blast

theorem leak_scan_reports_aged_active_entries_witness:
  "find_free_allocation_slot (allocations initial_tracker) = 0 \<and>
   0 \<in> set (leaks_reported True 30001000 tracked_once boot_machine) \<and>
   find_allocation_by_ptr (allocations tracked_once) 0x3FFD0000 = 0 \<and>
   0 \<notin> set (leaks_reported True 30001000
               (fst (tracked_free True 0x3FFD0000 (Some ''buf'') tracked_once boot_machine))
               boot_machine) \<and>
   fst (detect_memory_leaks True 30001000 tracked_once boot_machine) = tracked_once"
proof -
  have slot0: "find_free_allocation_slot (allocations initial_tracker) = 0"
    by (simp add: initial_tracker_def replicate_MAX_ALLOCATIONS find_free_allocation_slot_def
        zeroed_allocation_def)
  have found0: "find_allocation_by_ptr (allocations tracked_once) 0x3FFD0000 = 0"
    by (simp add: tracked_once_eval find_allocation_by_ptr_def)
  have init: "memory_monitoring_enabled initial_tracker \<and> memory_mutex initial_tracker"
    by (simp add: initial_tracker_def)
  have age: "unat (0 :: uint64_t) + 30001000 \<le> unat (30001000 :: uint64_t)"
    by simp
  note th = leak_scan_reports_aged_active_entries [where t = initial_tracker and p = "0x3FFD0000"
      and T = 0 and later = 30001000 and sz = 64 and cp = MALLOC_CAP_INTERNAL
      and desc = "Some ''buf''" and m = boot_machine and ?m2.0 = boot_machine]
  have a: "0 \<in> set (leaks_reported True 30001000 tracked_once boot_machine)"
    using th init slot0 age unfolding tracked_once_def by simp
  note th2 = leak_scan_reports_aged_active_entries [where t = tracked_once and q = "0x3FFD0000"
      and taken = True and now = 30001000 and ?taken2.0 = True and ?later2.0 = 30001000
      and ?desc2.0 = "Some ''buf''" and m = boot_machine and ?m3.0 = boot_machine]
  have b: "0 \<notin> set (leaks_reported True 30001000
               (fst (tracked_free True 0x3FFD0000 (Some ''buf'') tracked_once boot_machine))
               boot_machine)"
    using th2 found0 tracked_once_eval(4,5) by simp
  have c: "fst (detect_memory_leaks True 30001000 tracked_once boot_machine) = tracked_once"
    using th2 by blast
  show ?thesis
    using slot0 a found0 b c by blast
qed

subsection \<open>tracked\_free and the raw free\<close>

lemma tracked_free_heap_calls:
  "p \<noteq> NULL \<Longrightarrow> heap_calls (snd (tracked_free taken p desc t m)) = heap_calls m @ [Free p]"
  by (simp add: tracked_free_def Let_def split_def)

lemma tracked_free_unmatched:
  "find_allocation_by_ptr (allocations t) p < 0 \<Longrightarrow> fst (tracked_free taken p desc t m) = t"
  by (simp add: tracked_free_def Let_def split_def)

lemma find_allocation_by_ptr_from_none:
  "filter (\<lambda>a. is_active a \<and> ptr a = p) as = [] \<Longrightarrow> find_allocation_by_ptr_from as p i = - 1"
  by (induction as arbitrary: i) (auto split: if_splits)

lemma deactivate_first_match:
  assumes "length (filter (\<lambda>a. is_active a \<and> ptr a = p) as) \<le> 1"
    and "0 \<le> find_allocation_by_ptr_from as p i"
  shows "find_allocation_by_ptr_from
           (as[nat (find_allocation_by_ptr_from as p i) - i :=
                 (as ! (nat (find_allocation_by_ptr_from as p i) - i))\<lparr>is_active := False\<rparr>]) p i
         = - 1"
  using assms
proof (induction as arbitrary: i)
  case Nil
  then show ?case by simp
next
  case (Cons a as)
  show ?case
  proof (cases "is_active a \<and> ptr a = p")
    case True
    then have "filter (\<lambda>a. is_active a \<and> ptr a = p) as = []"
      using Cons.prems(1) by simp
    then have "find_allocation_by_ptr_from as p (Suc i) = - 1"
      by (rule find_allocation_by_ptr_from_none)
    then show ?thesis using True by simp
  next
    case False
    let ?r = "find_allocation_by_ptr_from as p (Suc i)"
    have eq: "find_allocation_by_ptr_from (a # as) p i = ?r"
      using False by auto
    have r0: "0 \<le> ?r"
      using Cons.prems(2) eq by simp
    have range: "int (Suc i) \<le> ?r"
      using find_allocation_by_ptr_from_range [OF r0] by simp
    then have idx: "nat ?r - i = Suc (nat ?r - Suc i)"
      by linarith
    have len: "length (filter (\<lambda>a. is_active a \<and> ptr a = p) as) \<le> 1"
      using Cons.prems(1) False by auto
    show ?thesis
      unfolding eq idx using Cons.IH [OF len r0] False by auto
  qed
qed

lemma tracked_free_clears_match:
  assumes "p \<noteq> NULL" and "memory_monitoring_enabled t" and "memory_mutex t"
    and "length (filter (\<lambda>a. is_active a \<and> ptr a = p) (allocations t)) \<le> 1"
  shows "find_allocation_by_ptr (allocations (fst (tracked_free True p desc t m))) p < 0"
proof (cases "0 \<le> find_allocation_by_ptr (allocations t) p")
  case True
  then show ?thesis
    using assms deactivate_first_match [OF assms(4), of 0]
    by (simp add: tracked_free_def Let_def find_allocation_by_ptr_def)
next
  case False
  then show ?thesis
    using assms by (simp add: tracked_free_def Let_def)
qed

text \<open>
  Claim C10 as written fails on the code in its last part.  When the first \<open>tracked_free\<close>
  of a tracked pointer does not obtain the mutex, the entry stays active, and a second
  \<open>tracked_free\<close> of the same pointer that obtains it marks the entry inactive and changes
  the counters.
\<close>

theorem tracked_free_second_call_counterexample:
  "is_active (allocations (fst (tracked_free False 0x3FFD0000 (Some ''buf'') tracked_once boot_machine)) ! 0) \<and>
   current_allocations (stats (fst (tracked_free False 0x3FFD0000 (Some ''buf'') tracked_once boot_machine))) = 1 \<and>
   \<not> is_active (allocations (fst (tracked_free True 0x3FFD0000 (Some ''buf'')
        (fst (tracked_free False 0x3FFD0000 (Some ''buf'') tracked_once boot_machine))
        (snd (tracked_free False 0x3FFD0000 (Some ''buf'') tracked_once boot_machine)))) ! 0) \<and>
   current_allocations (stats (fst (tracked_free True 0x3FFD0000 (Some ''buf'')
        (fst (tracked_free False 0x3FFD0000 (Some ''buf'') tracked_once boot_machine))
        (snd (tracked_free False 0x3FFD0000 (Some ''buf'') tracked_once boot_machine))))) = 0"
  by (simp add: tracked_free_def tracked_once_eval find_allocation_by_ptr_def Let_def)

text \<open>
  Claim C10, amended.  For every non-null pointer \<open>p\<close>, each call of \<open>tracked_free\<close>
  calls \<open>heap_caps_free\<close> on \<open>p\<close> exactly once, as its last step, whatever the tracker
  holds, whether or not the mutex is obtained and whether or not monitoring is enabled.  A
  call that finds no active entry for \<open>p\<close> leaves the table and the counters unchanged.
  So when the first of two calls on the same pointer runs its tracking step (monitoring on,
  mutex obtained) on a table with at most one active entry for \<open>p\<close>, the second call
  issues the raw free again and leaves the table and the counters as the first call left
  them.
\<close>

theorem tracked_free_always_frees:
  "(p \<noteq> NULL \<longrightarrow>
      heap_calls (snd (tracked_free taken p desc t m)) = heap_calls m @ [Free p]) \<and>
   (find_allocation_by_ptr (allocations t) p < 0 \<longrightarrow> fst (tracked_free taken p desc t m) = t) \<and>
   (p \<noteq> NULL \<and> memory_monitoring_enabled t \<and> memory_mutex t
      \<and> length (filter (\<lambda>a. is_active a \<and> ptr a = p) (allocations t)) \<le> 1
    \<longrightarrow> fst (tracked_free taken2 p desc2 (fst (tracked_free True p desc t m))
                 (snd (tracked_free True p desc t m)))
          = fst (tracked_free True p desc t m)
        \<and> heap_calls (snd (tracked_free taken2 p desc2 (fst (tracked_free True p desc t m))
                 (snd (tracked_free True p desc t m))))
          = heap_calls m @ [Free p, Free p])"
proof (intro conjI impI)
  assume "p \<noteq> NULL"
  then show "heap_calls (snd (tracked_free taken p desc t m)) = heap_calls m @ [Free p]"
    by (rule tracked_free_heap_calls)
next
  assume "find_allocation_by_ptr (allocations t) p < 0"
  then show "fst (tracked_free taken p desc t m) = t"
    by (rule tracked_free_unmatched)
next
  assume a: "p \<noteq> NULL \<and> memory_monitoring_enabled t \<and> memory_mutex t
      \<and> length (filter (\<lambda>a. is_active a \<and> ptr a = p) (allocations t)) \<le> 1"
  then have "find_allocation_by_ptr (allocations (fst (tracked_free True p desc t m))) p < 0"
    by (intro tracked_free_clears_match) simp_all
  then show "fst (tracked_free taken2 p desc2 (fst (tracked_free True p desc t m))
                 (snd (tracked_free True p desc t m)))
          = fst (tracked_free True p desc t m)"
    by (rule tracked_free_unmatched)
next
  assume a: "p \<noteq> NULL \<and> memory_monitoring_enabled t \<and> memory_mutex t
      \<and> length (filter (\<lambda>a. is_active a \<and> ptr a = p) (allocations t)) \<le> 1"
  then have p: "p \<noteq> NULL" by simp
  show "heap_calls (snd (tracked_free taken2 p desc2 (fst (tracked_free True p desc t m))
                 (snd (tracked_free True p desc t m))))
          = heap_calls m @ [Free p, Free p]"
    by (simp add: tracked_free_heap_calls [OF p])
qed

theorem tracked_free_always_frees_witness:
  "find_allocation_by_ptr (allocations tracked_once) 0x3FFD0000 = 0 \<and>
   heap_calls (snd (tracked_free True 0x3FFD0000 (Some ''buf'') tracked_once boot_machine))
     = [Free 0x3FFD0000] \<and>
   find_allocation_by_ptr
     (allocations (fst (tracked_free True 0x3FFD0000 (Some ''buf'') tracked_once boot_machine)))
     0x3FFD0000 = - 1 \<and>
   fst (tracked_free True 0x3FFD0000 (Some ''again'')
          (fst (tracked_free True 0x3FFD0000 (Some ''buf'') tracked_once boot_machine))
          (snd (tracked_free True 0x3FFD0000 (Some ''buf'') tracked_once boot_machine)))
     = fst (tracked_free True 0x3FFD0000 (Some ''buf'') tracked_once boot_machine) \<and>
   heap_calls (snd (tracked_free True 0x3FFD0000 (Some ''again'')
          (fst (tracked_free True 0x3FFD0000 (Some ''buf'') tracked_once boot_machine))
          (snd (tracked_free True 0x3FFD0000 (Some ''buf'') tracked_once boot_machine))))
     = [Free 0x3FFD0000, Free 0x3FFD0000]"
proof -
  have one: "length (filter (\<lambda>a. is_active a \<and> ptr a = 0x3FFD0000) (allocations tracked_once)) \<le> 1"
    by (simp add: tracked_once_eval zeroed_allocation_def)
  have found0: "find_allocation_by_ptr (allocations tracked_once) 0x3FFD0000 = 0"
    by (simp add: tracked_once_eval find_allocation_by_ptr_def)
  have gone: "find_allocation_by_ptr
     (allocations (fst (tracked_free True 0x3FFD0000 (Some ''buf'') tracked_once boot_machine)))
     0x3FFD0000 = - 1"
    by (simp add: tracked_free_def tracked_once_eval find_allocation_by_ptr_def Let_def
        find_allocation_by_ptr_from_none zeroed_allocation_def)
  note th = tracked_free_always_frees [where p = "0x3FFD0000" and t = tracked_once
      and m = boot_machine and taken = True and desc = "Some ''buf''" and ?taken2.0 = True
      and ?desc2.0 = "Some ''again''"]
  show ?thesis
    using th one found0 gone tracked_once_eval(4,5)
    by (simp add: boot_machine_def)
qed

end
